theory Spec2Isabelle
  imports Complex_Main "HOL-Library.Log_Nat"
begin

text \<open>
  A model of the request tracing and call-logging pipeline of the mail server: the
  exporter (\<open>lib/datadog-service.ts\<close>), the logging facade with its session
  statistics (\<open>lib/logging-service.ts\<close>) and the trace store with its
  request-context helpers (\<open>lib/trace-context.ts\<close>). Clock readings
  (\<open>Date.now()\<close>), random identifiers (\<open>crypto.randomUUID()\<close>) and the behaviour
  of the external sink are arguments of the functions that use them; module-level
  state is passed in and returned.
\<close>

section \<open>JavaScript values\<close>

text \<open>
  The TypeScript sources pass around values of type \<open>any\<close>, optional strings and plain
  objects. A JavaScript number that holds an integer (a millisecond timestamp, a
  duration, a counter) is an \<open>int\<close>; the two quotients computed by
  \<open>getSessionStats\<close> are doubles, rounded as IEEE 754 rounds them.
  An object is an association list in property order; an optional field is an
  \<open>option\<close>, \<open>None\<close> standing for \<open>undefined\<close>.
\<close>

datatype jsval =
    JUndefined
  | JNull
  | JBool bool
  | JNum int
  | JStr string
  | JArr "jsval list"
  | JObj "(string \<times> jsval) list"

type_synonym jsobj = "(string \<times> jsval) list"

text \<open>Truthiness, as \<open>if (v)\<close>, \<open>!v\<close>, \<open>a || b\<close> and \<open>a && b\<close> test it.\<close>

fun truthy :: "jsval \<Rightarrow> bool" where
  "truthy JUndefined = False"
| "truthy JNull = False"
| "truthy (JBool b) = b"
| "truthy (JNum n) = (n \<noteq> 0)"
| "truthy (JStr s) = (s \<noteq> [])"
| "truthy (JArr _) = True"
| "truthy (JObj _) = True"

text \<open>An optional string is truthy when it is present and not empty.\<close>

fun truthy_str :: "string option \<Rightarrow> bool" where
  "truthy_str None = False"
| "truthy_str (Some s) = (s \<noteq> [])"

text \<open>An optional number is truthy when it is present and not zero.\<close>

fun truthy_num :: "int option \<Rightarrow> bool" where
  "truthy_num None = False"
| "truthy_num (Some n) = (n \<noteq> 0)"

text \<open>\<open>a || b\<close> on optional strings: the left operand when it is truthy, else the right.\<close>

definition or_str :: "string option \<Rightarrow> string option \<Rightarrow> string option" where
  "or_str a b = (if truthy_str a then a else b)"

definition str_or_undefined :: "string option \<Rightarrow> jsval" where
  "str_or_undefined a = (case a of None \<Rightarrow> JUndefined | Some s \<Rightarrow> JStr s)"

text \<open>Property assignment and lookup on an object; a new key goes last, an old one keeps
  its place.\<close>

fun obj_set :: "jsobj \<Rightarrow> string \<Rightarrow> jsval \<Rightarrow> jsobj" where
  "obj_set [] k v = [(k, v)]"
| "obj_set ((k', v') # ps) k v = (if k' = k then (k, v) # ps else (k', v') # obj_set ps k v)"

definition obj_get :: "jsobj \<Rightarrow> string \<Rightarrow> jsval" where
  "obj_get ob k = (case map_of ob k of None \<Rightarrow> JUndefined | Some v \<Rightarrow> v)"

text \<open>An object literal, spreads included, defines its properties from left to right.\<close>

definition obj_literal :: "(string \<times> jsval) list \<Rightarrow> jsobj" where
  "obj_literal kvs = fold (\<lambda>(k, v) ob. obj_set ob k v) kvs []"

text \<open>Decimal rendering of an integer, as a template literal prints a number.\<close>

definition digit_char :: "nat \<Rightarrow> char" where
  "digit_char d = ''0123456789'' ! d"

fun show_nat :: "nat \<Rightarrow> string" where
  "show_nat n = (if n < 10 then [digit_char n] else show_nat (n div 10) @ [digit_char (n mod 10)])"

definition show_int :: "int \<Rightarrow> string" where
  "show_int i = (if i < 0 then CHR ''-'' # show_nat (nat (- i)) else show_nat (nat i))"

definition show_bool :: "bool \<Rightarrow> string" where
  "show_bool b = (if b then ''true'' else ''false'')"

text \<open>How a template literal prints a property that holds a string or is missing.\<close>

definition show_prop :: "jsobj \<Rightarrow> string \<Rightarrow> string" where
  "show_prop ob k = (case obj_get ob k of JStr s \<Rightarrow> s | _ \<Rightarrow> ''undefined'')"

text \<open>ASCII case mapping, which is all the \<open>/i\<close> flag and \<open>toUpperCase\<close> do on the
  patterns and level names of this program.\<close>

definition lower_char :: "char \<Rightarrow> char" where
  "lower_char c =
     (case map_of (zip ''ABCDEFGHIJKLMNOPQRSTUVWXYZ'' ''abcdefghijklmnopqrstuvwxyz'') c of
        None \<Rightarrow> c | Some d \<Rightarrow> d)"

definition upper_char :: "char \<Rightarrow> char" where
  "upper_char c =
     (case map_of (zip ''abcdefghijklmnopqrstuvwxyz'' ''ABCDEFGHIJKLMNOPQRSTUVWXYZ'') c of
        None \<Rightarrow> c | Some d \<Rightarrow> d)"

definition toUpperCase :: "string \<Rightarrow> string" where
  "toUpperCase s = map upper_char s"

subsection \<open>The regular expressions of the user-agent parser\<close>

text \<open>
  Every pattern of \<open>parseUserAgent\<close> is a literal, an alternation of literals, or a
  literal followed by one capture group \<open>([class]+)\<close>, all case-insensitive and
  unanchored. \<open>ci_prefix p s\<close> matches the literal \<open>p\<close> at the start of \<open>s\<close> and
  returns the rest; \<open>regex_search\<close> tries an anchored matcher at every position, from
  the left, as the engine does.
\<close>

fun ci_prefix :: "string \<Rightarrow> string \<Rightarrow> string option" where
  "ci_prefix [] s = Some s"
| "ci_prefix (p # ps) [] = None"
| "ci_prefix (p # ps) (c # cs) =
     (if lower_char p = lower_char c then ci_prefix ps cs else None)"

fun regex_search :: "(string \<Rightarrow> 'a option) \<Rightarrow> string \<Rightarrow> 'a option" where
  "regex_search m [] = m []"
| "regex_search m (c # cs) =
     (case m (c # cs) of Some r \<Rightarrow> Some r | None \<Rightarrow> regex_search m cs)"

text \<open>The literal \<open>p\<close> followed by a greedy, non-empty run of characters of \<open>cls\<close>;
  the result is the capture group.\<close>

definition lit_capture :: "string \<Rightarrow> string \<Rightarrow> string \<Rightarrow> string option" where
  "lit_capture p cls s =
     (case ci_prefix p s of
        None \<Rightarrow> None
      | Some rest \<Rightarrow>
          (let cap = takeWhile (\<lambda>c. c \<in> set cls) rest
           in if cap = [] then None else Some cap))"

text \<open>A literal with no capture group: \<open>match[1]\<close> is \<open>undefined\<close>.\<close>

definition lit_only :: "string \<Rightarrow> string \<Rightarrow> string option option" where
  "lit_only p s = (case ci_prefix p s of None \<Rightarrow> None | Some _ \<Rightarrow> Some None)"

definition match_capture :: "string \<Rightarrow> string \<Rightarrow> string \<Rightarrow> string option option" where
  "match_capture p cls ua = regex_search (\<lambda>s. map_option Some (lit_capture p cls s)) ua"

definition match_literal :: "string \<Rightarrow> string \<Rightarrow> string option option" where
  "match_literal p ua = regex_search (lit_only p) ua"

text \<open>\<open>regex.test\<close> for an alternation of literals.\<close>

definition test_alternatives :: "string list \<Rightarrow> string \<Rightarrow> bool" where
  "test_alternatives ps ua = list_ex (\<lambda>p. match_literal p ua \<noteq> None) ps"

text \<open>\<open>s.replace(/_/g, '.')\<close> and \<open>s.replace(/-/g, '')\<close>.\<close>

definition underscores_to_dots :: "string \<Rightarrow> string" where
  "underscores_to_dots s = map (\<lambda>c. if c = CHR ''_'' then CHR ''.'' else c) s"

definition strip_dashes :: "string \<Rightarrow> string" where
  "strip_dashes s = filter (\<lambda>c. c \<noteq> CHR ''-'') s"

text \<open>The first entry of an ordered pattern table that matches: the \<open>for\<close> loop over
  \<open>Object.entries\<close> with its \<open>break\<close>.\<close>

fun first_match :: "(string \<times> (string \<Rightarrow> 'a option)) list \<Rightarrow> string \<Rightarrow> (string \<times> 'a) option" where
  "first_match [] ua = None"
| "first_match ((nm, rx) # rest) ua =
     (case rx ua of Some m \<Rightarrow> Some (nm, m) | None \<Rightarrow> first_match rest ua)"

subsection \<open>Numbers that are not integers\<close>

text \<open>
  The two quotients of \<open>getSessionStats\<close> are IEEE 754 binary64 values. A finite
  double is the rational it stands for (\<open>Fin\<close>), next to the two infinities and
  \<open>NaN\<close>; the two zeros are not told apart. \<open>round_double\<close> rounds a rational to
  the nearest double, ties to even: 53 significant bits, the exponent of the last place
  at least \<open>-1074\<close> (subnormal numbers), and an infinity once the rounded value
  reaches \<open>2 ^ 1024\<close>. \<open>js_div\<close> is \<open>/\<close> on two numbers that hold integers (which
  a double holds exactly below \<open>2 ^ 53\<close>), with \<open>0 / 0 = NaN\<close>; \<open>js_mul\<close> is \<open>*\<close>.
\<close>

datatype jsnum = Fin rat | PosInf | NegInf | NaN

definition round_half_even :: "rat \<Rightarrow> int" where
  "round_half_even y =
     (let f = \<lfloor>y\<rfloor>; d = y - of_int f
      in if d < 1 / 2 then f else if 1 / 2 < d then f + 1 else if even f then f else f + 1)"

text \<open>The exponent of the leading bit of a positive rational: \<open>2 ^ n \<le> x < 2 ^ (n + 1)\<close>.\<close>

definition floor_log2 :: "rat \<Rightarrow> int" where
  "floor_log2 x =
     (if 1 \<le> x then bitlen \<lfloor>x\<rfloor> - 1
      else (let j = bitlen \<lfloor>1 / x\<rfloor> - 1 in if x * 2 powi j = 1 then - j else - j - 1))"

definition round_double :: "rat \<Rightarrow> jsnum" where
  "round_double x =
     (if x = 0 then Fin 0
      else (let e = max (floor_log2 \<bar>x\<bar> - 52) (- 1074);
                m = round_half_even (\<bar>x\<bar> / 2 powi e);
                r = of_int m * 2 powi e
            in if 2 powi 1024 \<le> r then (if 0 < x then PosInf else NegInf)
               else Fin (sgn x * r)))"

definition js_div :: "int \<Rightarrow> int \<Rightarrow> jsnum" where
  "js_div a b =
     (if b = 0 then (if a = 0 then NaN else if 0 < a then PosInf else NegInf)
      else round_double (of_int a / of_int b))"

fun js_mul :: "jsnum \<Rightarrow> jsnum \<Rightarrow> jsnum" where
  "js_mul NaN y = NaN"
| "js_mul x NaN = NaN"
| "js_mul (Fin a) (Fin b) = round_double (a * b)"
| "js_mul (Fin a) y = (if a = 0 then NaN else if (0 < a) = (y = PosInf) then PosInf else NegInf)"
| "js_mul x (Fin b) = (if b = 0 then NaN else if (0 < b) = (x = PosInf) then PosInf else NegInf)"
| "js_mul x y = (if x = y then PosInf else NegInf)"

section \<open>The logging types (types/logging.ts)\<close>

datatype SpanStatus = Started | Completed | Errored

record TraceSpan =
  span_id :: string
  span_name :: string
  span_startTime :: int
  span_endTime :: "int option"
  span_duration :: "int option"
  span_status :: SpanStatus
  span_metadata :: "(string \<rightharpoonup> jsval) option"
  span_error :: "string option"
  span_tags :: "(string \<rightharpoonup> string) option"

datatype Method = Query | Mutation | Subscription

record CallMetadata =
  md_userAgent :: "string option"
  md_ip :: "string option"
  md_method :: Method
  md_referer :: "string option"
  md_origin :: "string option"
  md_acceptLanguage :: "string option"
  md_acceptEncoding :: "string option"
  md_requestId :: "string option"
  md_timestamp :: "string option"
  md_startTime :: "int option"
  md_endTime :: "int option"
  md_traceId :: "string option"
  md_requestDuration :: "int option"

text \<open>\<open>Omit<TRPCCallLog, 'id' | 'timestamp'>\<close>, the argument of \<open>logCall\<close>. The trace
  snapshot is carried as a value and copied into the entry as it is.\<close>

record CallData =
  log_userId :: string
  log_sessionId :: string
  log_procedure :: string
  log_input :: jsval
  log_output :: jsval
  log_error :: "string option"
  log_duration :: int
  log_metadata :: CallMetadata
  log_trace :: jsval

record TRPCCallLog = CallData +
  log_id :: string
  log_timestamp :: int

record LoggingState =
  sessionId :: string
  userId :: string
  startedAt :: int
  lastActivity :: int
  totalCalls :: int
  totalErrors :: int
  totalDuration :: int

record SessionStats =
  stats_totalCalls :: int
  stats_totalErrors :: int
  stats_totalDuration :: int
  stats_averageDuration :: jsnum
  stats_errorRate :: jsnum
  stats_sessionDuration :: int

section \<open>The exporter (lib/datadog-service.ts)\<close>

text \<open>
  What the program can observe and change outside a call: the module-level map
  \<open>sessionStats\<close>, the bodies handed to the sink's \<open>submitLog\<close> (in order, whether
  the sink accepted them or not) and the lines written with \<open>console.error\<close>.
\<close>

datatype error = TraceNotFound string | SinkFailure string

record world =
  sessionStats :: "string \<rightharpoonup> LoggingState"
  submitted :: "jsval list"
  console :: "string list"

text \<open>The external sink: for a body, \<open>None\<close> when \<open>submitLog\<close> resolves and
  \<open>Some msg\<close> when it rejects.\<close>

type_synonym sink = "jsval \<Rightarrow> string option"

definition submitLog :: "sink \<Rightarrow> jsval \<Rightarrow> world \<Rightarrow> (error + unit) \<times> world" where
  "submitLog snk body w =
     (case snk body of None \<Rightarrow> Inr () | Some msg \<Rightarrow> Inl (SinkFailure msg),
      w\<lparr>submitted := submitted w @ [body]\<rparr>)"

text \<open>\<open>try { body } catch (error) { console.error(..., error) }\<close>: a failure of the body
  becomes a console line and the block completes normally.\<close>

definition error_text :: "error \<Rightarrow> string" where
  "error_text e = (case e of TraceNotFound t \<Rightarrow> ''Trace not found: '' @ t | SinkFailure m \<Rightarrow> m)"

definition catch_and_log :: "(error + unit) \<times> world \<Rightarrow> (error + unit) \<times> world" where
  "catch_and_log r =
     (case r of
        (Inr u, w) \<Rightarrow> (Inr u, w)
      | (Inl e, w) \<Rightarrow>
          (Inr (), w\<lparr>console := console w @ [''Failed to log TRPC call to Datadog: '' @ error_text e]\<rparr>))"

definition generateId :: "string \<Rightarrow> string" where
  "generateId uuid = strip_dashes uuid"

definition loggingProcedures :: "string list" where
  "loggingProcedures =
     [''logging.getSessionStats'', ''logging.clearSession'',
      ''logging.getSessionState'', ''logging.exportToDatadog'']"

definition isLoggingProcedure :: "string \<Rightarrow> bool" where
  "isLoggingProcedure procedure = (procedure \<in> set loggingProcedures)"

definition browsers :: "(string \<times> (string \<Rightarrow> string option option)) list" where
  "browsers =
     [(''chrome'', match_capture ''Chrome/'' ''0123456789.''),
      (''firefox'', match_capture ''Firefox/'' ''0123456789.''),
      (''safari'', match_capture ''Safari/'' ''0123456789.''),
      (''edge'', match_capture ''Edg/'' ''0123456789.'')]"

definition os :: "(string \<times> (string \<Rightarrow> string option option)) list" where
  "os =
     [(''windows'', match_capture ''Windows NT '' ''0123456789.''),
      (''macos'', match_capture ''Mac OS X '' ''0123456789_.''),
      (''linux'', match_literal ''Linux''),
      (''android'', match_capture ''Android '' ''0123456789.''),
      (''ios'', match_capture ''OS '' ''0123456789_'')]"

definition test_as_match :: "string list \<Rightarrow> string \<Rightarrow> unit option" where
  "test_as_match ps ua = (if test_alternatives ps ua then Some () else None)"

definition devices :: "(string \<times> (string \<Rightarrow> unit option)) list" where
  "devices =
     [(''mobile'', test_as_match [''Mobile'', ''Android'', ''iPhone'']),
      (''tablet'', test_as_match [''iPad'', ''Tablet'']),
      (''desktop'', test_as_match [''Windows'', ''Mac'', ''Linux''])]"

text \<open>\<open>parseUserAgent\<close>: the empty object when the user agent is missing or empty, else
  the six classification properties.\<close>

definition parseUserAgent :: "string option \<Rightarrow> jsobj" where
  "parseUserAgent userAgent =
     (if \<not> truthy_str userAgent then []
      else
        (let ua = the userAgent;
             (browser, browserVersion) =
               (case first_match browsers ua of
                  None \<Rightarrow> (''unknown'', JStr [])
                | Some (nm, m) \<Rightarrow> (nm, str_or_undefined m));
             (operatingSystem, osVersion) =
               (case first_match os ua of
                  None \<Rightarrow> (''unknown'', [])
                | Some (nm, m) \<Rightarrow>
                    (nm, case m of None \<Rightarrow> [] | Some v \<Rightarrow> underscores_to_dots v));
             deviceType =
               (case first_match devices ua of None \<Rightarrow> ''unknown'' | Some (ty, _) \<Rightarrow> ty)
         in obj_literal
              [(''browser'', JStr browser),
               (''browser_version'', browserVersion),
               (''operating_system'', JStr operatingSystem),
               (''os_version'', JStr osVersion),
               (''device_type'', JStr deviceType),
               (''user_agent'', JStr ua)]))"

definition performanceCategory :: "int \<Rightarrow> string" where
  "performanceCategory d = (if d < 100 then ''fast'' else if d < 500 then ''normal'' else ''slow'')"

definition logLevel :: "TRPCCallLog \<Rightarrow> string" where
  "logLevel lg =
     (if truthy_str (log_error lg) then ''error''
      else if performanceCategory (log_duration lg) = ''slow'' then ''warn'' else ''info'')"

definition method_name :: "Method \<Rightarrow> string" where
  "method_name m = (case m of Query \<Rightarrow> ''query'' | Mutation \<Rightarrow> ''mutation'' | Subscription \<Rightarrow> ''subscription'')"

definition additionalProperties :: "string \<Rightarrow> string \<Rightarrow> TRPCCallLog \<Rightarrow> jsobj" where
  "additionalProperties sid uid lg =
     (let md = log_metadata lg;
          hasError = truthy_str (log_error lg);
          perf = performanceCategory (log_duration lg)
      in obj_literal
           ([(''call_id'', JStr (log_id lg)),
             (''procedure'', JStr (log_procedure lg)),
             (''duration'', JNum (log_duration lg)),
             (''performance_category'', JStr perf),
             (''trpc_method'', JStr (method_name (md_method md))),
             (''session_id'', JStr sid),
             (''user_id'', JStr uid),
             (''http_method'', JStr ''POST''),
             (''http_url'', JStr (''/api/trpc/'' @ log_procedure lg)),
             (''client_ip'', str_or_undefined (md_ip md)),
             (''referer'', str_or_undefined (md_referer md)),
             (''origin'', str_or_undefined (md_origin md)),
             (''accept_language'', str_or_undefined (md_acceptLanguage md)),
             (''accept_encoding'', str_or_undefined (md_acceptEncoding md)),
             (''request_id'', str_or_undefined (md_requestId md))]
            @ parseUserAgent (md_userAgent md)
            @ [(''has_error'', JBool hasError)]
            @ (if hasError
               then [(''error_message'', JStr (the (log_error lg))),
                     (''error_type'', JStr ''trpc_error'')]
               else [])
            @ [(''request_payload'', log_input lg)]
            @ (if truthy (log_output lg) then [(''response_payload'', log_output lg)] else [])
            @ [(''timing'',
                 JObj (obj_literal
                   [(''start_time'',
                       JNum (if truthy_num (md_startTime md) then the (md_startTime md)
                             else log_timestamp lg)),
                    (''end_time'',
                       JNum (if truthy_num (md_endTime md) then the (md_endTime md)
                             else log_timestamp lg + log_duration lg)),
                    (''duration_ms'', JNum (log_duration lg)),
                    (''performance_category'', JStr perf)])),
               (''trace'', log_trace lg)]))"

definition logEntry :: "string \<Rightarrow> string \<Rightarrow> string \<Rightarrow> string \<Rightarrow> TRPCCallLog \<Rightarrow> jsval" where
  "logEntry traceId spanId sid uid lg =
     (let hasError = truthy_str (log_error lg);
          perf = performanceCategory (log_duration lg);
          deviceInfo = parseUserAgent (md_userAgent (log_metadata lg))
      in JObj (obj_literal
           [(''message'',
               JStr (toUpperCase (logLevel lg) @ '': TRPC call: ['' @ log_procedure lg @ ''] (''
                     @ show_int (log_duration lg) @ ''ms)'')),
            (''status'', JStr (logLevel lg)),
            (''service'', JStr ''zero-mail-app''),
            (''ddsource'', JStr ''trpc-logging''),
            (''ddtags'',
               JStr (''session:'' @ sid @ '',user:'' @ uid @ '',procedure:'' @ log_procedure lg
                     @ '',duration:'' @ show_int (log_duration lg) @ ''ms,has_error:''
                     @ show_bool hasError @ '',performance:'' @ perf
                     @ '',browser:'' @ show_prop deviceInfo ''browser''
                     @ '',device:'' @ show_prop deviceInfo ''device_type'')),
            (''hostname'', JStr ''cloudflare-worker''),
            (''timestamp'', JNum (log_timestamp lg)),
            (''dd'', JObj (obj_literal [(''trace_id'', JStr traceId), (''span_id'', JStr spanId)])),
            (''additionalProperties'', JObj (additionalProperties sid uid lg))]))"

text \<open>\<open>logSingleCall\<close>. The two random UUIDs behind \<open>generateId\<close> are arguments.\<close>

definition logSingleCall ::
  "sink \<Rightarrow> string \<Rightarrow> string \<Rightarrow> string \<Rightarrow> string \<Rightarrow> TRPCCallLog \<Rightarrow> world \<Rightarrow> (error + unit) \<times> world" where
  "logSingleCall snk uuid1 uuid2 sid uid lg w =
     (if isLoggingProcedure (log_procedure lg) then (Inr (), w)
      else catch_and_log
             (let traceId = generateId uuid1; spanId = generateId uuid2
              in submitLog snk (JArr [logEntry traceId spanId sid uid lg]) w))"

section \<open>The session statistics (lib/logging-service.ts)\<close>

text \<open>Each operation reads the clock once; the reading is the argument \<open>now\<close>.\<close>

definition freshState :: "int \<Rightarrow> string \<Rightarrow> string \<Rightarrow> LoggingState" where
  "freshState now sid uid =
     \<lparr>sessionId = sid, userId = uid, startedAt = now, lastActivity = now,
      totalCalls = 0, totalErrors = 0, totalDuration = 0\<rparr>"

definition updateSessionStats ::
  "int \<Rightarrow> string \<Rightarrow> string \<Rightarrow> TRPCCallLog \<Rightarrow> (string \<rightharpoonup> LoggingState) \<Rightarrow> (string \<rightharpoonup> LoggingState)" where
  "updateSessionStats now sid uid lg m =
     (let currentState = (case m sid of None \<Rightarrow> freshState now sid uid | Some st \<Rightarrow> st);
          s1 = currentState\<lparr>lastActivity := log_timestamp lg\<rparr>;
          s2 = s1\<lparr>totalCalls := totalCalls s1 + 1\<rparr>;
          s3 = s2\<lparr>totalDuration := totalDuration s2 + log_duration lg\<rparr>;
          s4 = (if truthy_str (log_error lg) then s3\<lparr>totalErrors := totalErrors s3 + 1\<rparr> else s3)
      in m(sid \<mapsto> s4))"

definition getState :: "int \<Rightarrow> string \<Rightarrow> (string \<rightharpoonup> LoggingState) \<Rightarrow> LoggingState \<times> (string \<rightharpoonup> LoggingState)" where
  "getState now sid m =
     (case m sid of
        Some st \<Rightarrow> (st, m)
      | None \<Rightarrow> (freshState now sid [], m(sid \<mapsto> freshState now sid [])))"

definition initializeSession :: "int \<Rightarrow> string \<Rightarrow> string \<Rightarrow> (string \<rightharpoonup> LoggingState) \<Rightarrow> (string \<rightharpoonup> LoggingState)" where
  "initializeSession now sid uid m =
     (let (st, m1) = getState now sid m
      in m1(sid \<mapsto> st\<lparr>userId := uid, sessionId := sid, startedAt := now, lastActivity := now\<rparr>))"

definition getSessionStats :: "int \<Rightarrow> string \<Rightarrow> (string \<rightharpoonup> LoggingState) \<Rightarrow> SessionStats \<times> (string \<rightharpoonup> LoggingState)" where
  "getSessionStats now sid m =
     (let (st, m1) = getState now sid m
      in (\<lparr>stats_totalCalls = totalCalls st,
           stats_totalErrors = totalErrors st,
           stats_totalDuration = totalDuration st,
           stats_averageDuration =
             (if totalCalls st > 0 then js_div (totalDuration st) (totalCalls st) else Fin 0),
           stats_errorRate =
             (if totalCalls st > 0
              then js_mul (js_div (totalErrors st) (totalCalls st)) (Fin 100) else Fin 0),
           stats_sessionDuration = now - startedAt st\<rparr>, m1))"

definition clearSession :: "int \<Rightarrow> string \<Rightarrow> (string \<rightharpoonup> LoggingState) \<Rightarrow> (string \<rightharpoonup> LoggingState)" where
  "clearSession now sid m = m(sid \<mapsto> freshState now sid [])"

text \<open>\<open>logCall\<close>: \<open>uuid\<close> is the call's identifier, \<open>stamp\<close> the clock when the log is
  stamped, \<open>now\<close> the clock when, after the export was awaited, the statistics are
  updated.\<close>

definition stampLog :: "string \<Rightarrow> int \<Rightarrow> CallData \<Rightarrow> TRPCCallLog" where
  "stampLog uuid stamp callData = CallData.extend callData (TRPCCallLog.fields uuid stamp)"

definition logCall ::
  "sink \<Rightarrow> string \<Rightarrow> string \<Rightarrow> string \<Rightarrow> int \<Rightarrow> int \<Rightarrow> CallData \<Rightarrow> world \<Rightarrow> (error + unit) \<times> world" where
  "logCall snk uuid uuid1 uuid2 stamp now callData w =
     (let lg = stampLog uuid stamp callData;
          (r, w1) = catch_and_log
                      (logSingleCall snk uuid1 uuid2 (log_sessionId callData) (log_userId callData) lg w)
      in (r, w1\<lparr>sessionStats :=
                  updateSessionStats now (log_sessionId callData) (log_userId callData) lg
                    (sessionStats w1)\<rparr>))"

text \<open>A run of \<open>logCall\<close>s, each with its own sink behaviour, identifiers and clock
  readings.\<close>

record LogCallArgs =
  arg_sink :: sink
  arg_uuid :: string
  arg_uuid1 :: string
  arg_uuid2 :: string
  arg_stamp :: int
  arg_now :: int
  arg_callData :: CallData

definition logCallWith :: "LogCallArgs \<Rightarrow> world \<Rightarrow> (error + unit) \<times> world" where
  "logCallWith a w =
     logCall (arg_sink a) (arg_uuid a) (arg_uuid1 a) (arg_uuid2 a) (arg_stamp a) (arg_now a)
       (arg_callData a) w"

fun logCalls :: "LogCallArgs list \<Rightarrow> world \<Rightarrow> world" where
  "logCalls [] w = w"
| "logCalls (a # rest) w = logCalls rest (snd (logCallWith a w))"

text \<open>The calls of a run that belong to one session, and the three quantities the
  statistics are compared with.\<close>

definition callsOf :: "string \<Rightarrow> LogCallArgs list \<Rightarrow> CallData list" where
  "callsOf sid calls = filter (\<lambda>c. log_sessionId c = sid) (map arg_callData calls)"

definition errorCount :: "CallData list \<Rightarrow> int" where
  "errorCount cs = int (length (filter (\<lambda>c. truthy_str (log_error c)) cs))"

definition durationSum :: "CallData list \<Rightarrow> int" where
  "durationSum cs = sum_list (map log_duration cs)"

definition zeroed :: "LoggingState \<Rightarrow> bool" where
  "zeroed st = (totalCalls st = 0 \<and> totalErrors st = 0 \<and> totalDuration st = 0)"

definition absentOrZeroed :: "(string \<rightharpoonup> LoggingState) \<Rightarrow> string \<Rightarrow> bool" where
  "absentOrZeroed m sid = (case m sid of None \<Rightarrow> True | Some st \<Rightarrow> zeroed st)"

section \<open>The trace store (lib/trace-context.ts)\<close>

record TraceMetadata =
  tm_procedure :: "string option"
  tm_userId :: "string option"
  tm_sessionId :: "string option"
  tm_ip :: "string option"
  tm_userAgent :: "string option"
  tm_requestId :: "string option"

record RequestTrace =
  trace_traceId :: string
  trace_startTime :: int
  trace_endTime :: "int option"
  trace_duration :: "int option"
  trace_spans :: "TraceSpan list"
  trace_metadata :: TraceMetadata

text \<open>
  \<open>traces\<close> is a JavaScript \<open>Map\<close>: its entries keep insertion order, which
  \<open>Array.from(this.traces.entries())\<close> and the stable \<open>sort\<close> of the capacity pass
  observe. \<open>set\<close> on a key that is present replaces the value in place, on a new key it
  appends; \<open>delete\<close> removes the key.
\<close>

type_synonym traces = "(string \<times> RequestTrace) list"

definition MAX_TRACES :: nat where
  "MAX_TRACES = 10000"

definition TRACE_TTL_MS :: int where
  "TRACE_TTL_MS = 5 * 60 * 1000"

fun traces_set :: "traces \<Rightarrow> string \<Rightarrow> RequestTrace \<Rightarrow> traces" where
  "traces_set [] k v = [(k, v)]"
| "traces_set ((k', v') # ps) k v =
     (if k' = k then (k, v) # ps else (k', v') # traces_set ps k v)"

definition traces_delete :: "string \<Rightarrow> traces \<Rightarrow> traces" where
  "traces_delete k s = filter (\<lambda>p. fst p \<noteq> k) s"

definition age :: "int \<Rightarrow> RequestTrace \<Rightarrow> int" where
  "age now tr = now - trace_startTime tr"

text \<open>The first two \<open>for\<close> statements of \<open>performCleanup\<close>: collect the
  identifiers whose age is over the TTL, then delete them.\<close>

definition tracesToDelete :: "int \<Rightarrow> traces \<Rightarrow> string list" where
  "tracesToDelete now s = map fst (filter (\<lambda>p. age now (snd p) > TRACE_TTL_MS) s)"

definition removeStale :: "int \<Rightarrow> traces \<Rightarrow> traces" where
  "removeStale now s = fold traces_delete (tracesToDelete now s) s"

text \<open>The capacity pass: when the map is over \<open>MAX_TRACES\<close>, sort the entries by start
  time (the sort is stable) and delete the first \<open>excessCount\<close> of them.\<close>

definition sortedTraces :: "traces \<Rightarrow> traces" where
  "sortedTraces s = sort_key (\<lambda>p. trace_startTime (snd p)) s"

definition evictOldest :: "traces \<Rightarrow> traces" where
  "evictOldest s =
     (if length s > MAX_TRACES
      then (let excessCount = length s - MAX_TRACES
            in fold traces_delete (map fst (take excessCount (sortedTraces s))) s)
      else s)"

text \<open>\<open>performCleanup\<close>; its closing \<open>console.debug\<close> changes nothing and is left out.\<close>

definition performCleanup :: "int \<Rightarrow> traces \<Rightarrow> traces" where
  "performCleanup now s = evictOldest (removeStale now s)"

definition getStats :: "int \<Rightarrow> traces \<Rightarrow> nat \<times> int" where
  "getStats now s =
     (if length s = 0 then (0, 0)
      else (length s, fold (\<lambda>p oldestAge. max oldestAge (age now (snd p))) s 0))"

definition getTrace :: "string \<Rightarrow> traces \<Rightarrow> RequestTrace option" where
  "getTrace traceId s = map_of s traceId"

text \<open>\<open>createTrace\<close>: \<open>size >= MAX_TRACES * 0.9\<close> is \<open>10 * size >= 9 * MAX_TRACES\<close>.\<close>

definition createTrace :: "int \<Rightarrow> string \<Rightarrow> TraceMetadata \<Rightarrow> traces \<Rightarrow> RequestTrace \<times> traces" where
  "createTrace now traceId metadata s =
     (case map_of s traceId of
        Some existing \<Rightarrow> (existing, s)
      | None \<Rightarrow>
          (let s1 = (if 10 * length s \<ge> 9 * MAX_TRACES then performCleanup now s else s);
               trace = \<lparr>trace_traceId = traceId, trace_startTime = now, trace_endTime = None,
                        trace_duration = None, trace_spans = [], trace_metadata = metadata\<rparr>
           in (trace, traces_set s1 traceId trace)))"

text \<open>The argument of \<open>addSpan\<close>, \<open>Omit<TraceSpan, 'id' | 'startTime' | 'status'>\<close>.\<close>

record SpanSpec =
  spec_name :: string
  spec_endTime :: "int option"
  spec_duration :: "int option"
  spec_metadata :: "(string \<rightharpoonup> jsval) option"
  spec_error :: "string option"
  spec_tags :: "(string \<rightharpoonup> string) option"

text \<open>\<open>addSpan\<close> throws when the trace is unknown; \<open>uuid\<close> is the fresh span
  identifier.\<close>

definition addSpan :: "string \<Rightarrow> int \<Rightarrow> string \<Rightarrow> SpanSpec \<Rightarrow> traces \<Rightarrow> (error + TraceSpan) \<times> traces" where
  "addSpan uuid now traceId spec s =
     (case map_of s traceId of
        None \<Rightarrow> (Inl (TraceNotFound traceId), s)
      | Some trace \<Rightarrow>
          (let fullSpan =
                 \<lparr>span_id = uuid, span_name = spec_name spec, span_startTime = now,
                  span_endTime = spec_endTime spec, span_duration = spec_duration spec,
                  span_status = Started, span_metadata = spec_metadata spec,
                  span_error = spec_error spec, span_tags = spec_tags spec\<rparr>
           in (Inr fullSpan,
               traces_set s traceId (trace\<lparr>trace_spans := trace_spans trace @ [fullSpan]\<rparr>))))"

definition startSpan ::
  "string \<Rightarrow> int \<Rightarrow> string \<Rightarrow> string \<Rightarrow> (string \<rightharpoonup> jsval) option \<Rightarrow> (string \<rightharpoonup> string) option
     \<Rightarrow> traces \<Rightarrow> (error + TraceSpan) \<times> traces" where
  "startSpan uuid now traceId name metadata tags s =
     addSpan uuid now traceId
       \<lparr>spec_name = name, spec_endTime = None, spec_duration = None, spec_metadata = metadata,
        spec_error = None, spec_tags = tags\<rparr> s"

text \<open>\<open>completeSpan\<close> changes the first span with the identifier, as \<open>find\<close> returns
  it.\<close>

fun update_first :: "('a \<Rightarrow> bool) \<Rightarrow> ('a \<Rightarrow> 'a) \<Rightarrow> 'a list \<Rightarrow> 'a list" where
  "update_first P f [] = []"
| "update_first P f (x # xs) = (if P x then f x # xs else x # update_first P f xs)"

definition finishSpan :: "int \<Rightarrow> (string \<rightharpoonup> jsval) option \<Rightarrow> string option \<Rightarrow> TraceSpan \<Rightarrow> TraceSpan" where
  "finishSpan now metadata err sp =
     sp\<lparr>span_endTime := Some now,
          span_duration := Some (now - span_startTime sp),
          span_status := (if truthy_str err then Errored else Completed),
          span_error := (if truthy_str err then err else span_error sp),
          span_metadata :=
            (case metadata of
               None \<Rightarrow> span_metadata sp
             | Some md \<Rightarrow>
                 (case span_metadata sp of None \<Rightarrow> Some md | Some old \<Rightarrow> Some (old ++ md)))\<rparr>"

definition completeSpan ::
  "int \<Rightarrow> string \<Rightarrow> string \<Rightarrow> (string \<rightharpoonup> jsval) option \<Rightarrow> string option \<Rightarrow> traces \<Rightarrow> traces" where
  "completeSpan now traceId spanId metadata err s =
     (case map_of s traceId of
        None \<Rightarrow> s
      | Some trace \<Rightarrow>
          (case find (\<lambda>sp. span_id sp = spanId) (trace_spans trace) of
             None \<Rightarrow> s
           | Some _ \<Rightarrow>
               traces_set s traceId
                 (trace\<lparr>trace_spans :=
                    update_first (\<lambda>sp. span_id sp = spanId) (finishSpan now metadata err)
                      (trace_spans trace)\<rparr>)))"

text \<open>\<open>completeTrace\<close> also arms a ten-second timer whose callback deletes the
  identifier; the callback is the store operation \<open>GraceDelete\<close> below.\<close>

definition completeTrace :: "int \<Rightarrow> string \<Rightarrow> traces \<Rightarrow> RequestTrace option \<times> traces" where
  "completeTrace now traceId s =
     (case map_of s traceId of
        None \<Rightarrow> (None, s)
      | Some trace \<Rightarrow>
          (let finished = trace\<lparr>trace_endTime := Some now,
                            trace_duration := Some (now - trace_startTime trace)\<rparr>
           in (Some finished, traces_set s traceId finished)))"

definition destroy :: "traces \<Rightarrow> traces" where
  "destroy s = []"

subsection \<open>The request-context helpers\<close>

text \<open>What the helpers read from the framework's context \<open>c\<close>: \<open>c.var.traceId\<close>,
  \<open>c.get('traceId')\<close> and the header lookup \<open>c.req.header(name)\<close>.\<close>

record RequestCtx =
  ctx_var_traceId :: "string option"
  ctx_get_traceId :: "string option"
  ctx_header :: "string \<Rightarrow> string option"

definition getTraceId :: "RequestCtx \<Rightarrow> string option" where
  "getTraceId c =
     or_str (or_str (or_str (ctx_var_traceId c) (ctx_get_traceId c))
                    (ctx_header c ''X-Trace-ID''))
            (ctx_header c ''x-trace-id'')"

definition addRequestSpan ::
  "string \<Rightarrow> int \<Rightarrow> RequestCtx \<Rightarrow> string \<Rightarrow> (string \<rightharpoonup> jsval) option \<Rightarrow> (string \<rightharpoonup> string) option
     \<Rightarrow> traces \<Rightarrow> (error + TraceSpan option) \<times> traces" where
  "addRequestSpan uuid now c name metadata tags s =
     (let traceId = getTraceId c
      in if \<not> truthy_str traceId then (Inr None, s)
         else (case startSpan uuid now (the traceId) name metadata tags s of
                 (Inl e, s') \<Rightarrow> (Inl e, s')
               | (Inr sp, s') \<Rightarrow> (Inr (Some sp), s')))"

definition completeRequestSpan ::
  "int \<Rightarrow> RequestCtx \<Rightarrow> string \<Rightarrow> (string \<rightharpoonup> jsval) option \<Rightarrow> string option \<Rightarrow> traces
     \<Rightarrow> (error + unit) \<times> traces" where
  "completeRequestSpan now c spanId metadata err s =
     (let traceId = getTraceId c
      in if \<not> truthy_str traceId then (Inr (), s)
         else (Inr (), completeSpan now (the traceId) spanId metadata err s))"

subsection \<open>Sequences of store operations\<close>

text \<open>
  Everything that changes the map: the public methods, the interval callback
  (\<open>PerformCleanup\<close>) and the timer callback armed by \<open>completeTrace\<close>
  (\<open>GraceDelete\<close>). Each operation carries the clock reading and the random
  identifier it uses. A timer callback may stand anywhere in a sequence, which allows
  every schedule the runtime can produce.
\<close>

datatype store_op =
    CreateTrace int string TraceMetadata
  | AddSpan string int string SpanSpec
  | CompleteSpan int string string "(string \<rightharpoonup> jsval) option" "string option"
  | CompleteTrace int string
  | GraceDelete string
  | PerformCleanup int
  | Destroy

fun step :: "store_op \<Rightarrow> traces \<Rightarrow> traces" where
  "step (CreateTrace now traceId metadata) s = snd (createTrace now traceId metadata s)"
| "step (AddSpan uuid now traceId spec) s = snd (addSpan uuid now traceId spec s)"
| "step (CompleteSpan now traceId spanId metadata err) s = completeSpan now traceId spanId metadata err s"
| "step (CompleteTrace now traceId) s = snd (completeTrace now traceId s)"
| "step (GraceDelete traceId) s = traces_delete traceId s"
| "step (PerformCleanup now) s = performCleanup now s"
| "step Destroy s = destroy s"

definition run :: "store_op list \<Rightarrow> traces \<Rightarrow> traces" where
  "run ops s = fold step ops s"

text \<open>The status of the \<open>i\<close>-th span of a trace, when the trace and the span exist.\<close>

definition statusAt :: "traces \<Rightarrow> string \<Rightarrow> nat \<Rightarrow> SpanStatus option" where
  "statusAt s traceId i =
     (case map_of s traceId of
        None \<Rightarrow> None
      | Some trace \<Rightarrow>
          (if i < length (trace_spans trace) then Some (span_status (trace_spans trace ! i))
           else None))"

definition terminal :: "SpanStatus option \<Rightarrow> bool" where
  "terminal st = (st = Some Completed \<or> st = Some Errored)"

text \<open>The trace stays in the map after each operation of the sequence.\<close>

fun keptThrough :: "string \<Rightarrow> store_op list \<Rightarrow> traces \<Rightarrow> bool" where
  "keptThrough traceId [] s = True"
| "keptThrough traceId (x # xs) s =
     (map_of (step x s) traceId \<noteq> None \<and> keptThrough traceId xs (step x s))"

section \<open>Observations and sample inputs\<close>

text \<open>The three counters of a session, all zero while the session has no aggregate.\<close>

definition countersOf :: "(string \<rightharpoonup> LoggingState) \<Rightarrow> string \<Rightarrow> int \<times> int \<times> int" where
  "countersOf m sid =
     (case m sid of
        None \<Rightarrow> (0, 0, 0)
      | Some st \<Rightarrow> (totalCalls st, totalErrors st, totalDuration st))"

definition sampleMetadata :: CallMetadata where
  "sampleMetadata =
     \<lparr>md_userAgent = None, md_ip = None, md_method = Query, md_referer = None,
      md_origin = None, md_acceptLanguage = None, md_acceptEncoding = None,
      md_requestId = None, md_timestamp = None, md_startTime = None, md_endTime = None,
      md_traceId = None, md_requestDuration = None\<rparr>"

definition sampleCall :: "string \<Rightarrow> string option \<Rightarrow> CallData" where
  "sampleCall procedure err =
     \<lparr>log_userId = ''u1'', log_sessionId = ''s1'', log_procedure = procedure,
      log_input = JNull, log_output = JUndefined, log_error = err, log_duration = 42,
      log_metadata = sampleMetadata, log_trace = JUndefined\<rparr>"

definition emptyWorld :: world where
  "emptyWorld = \<lparr>sessionStats = Map.empty, submitted = [], console = []\<rparr>"

definition failingSink :: sink where
  "failingSink body = Some ''503 Service Unavailable''"

definition sampleArgs :: "string option \<Rightarrow> LogCallArgs" where
  "sampleArgs err =
     \<lparr>arg_sink = failingSink, arg_uuid = ''id'', arg_uuid1 = ''a-b'', arg_uuid2 = ''c-d'',
      arg_stamp = 5, arg_now = 6, arg_callData = sampleCall ''mail.send'' err\<rparr>"

text \<open>What \<open>getSessionStats\<close> returns after a run of calls, and a run of twenty calls of
  one session, eleven of them with an error.\<close>

definition statsAfter :: "int \<Rightarrow> string \<Rightarrow> LogCallArgs list \<Rightarrow> world \<Rightarrow> SessionStats" where
  "statsAfter now sid calls w = fst (getSessionStats now sid (sessionStats (logCalls calls w)))"

definition elevenOfTwenty :: "LogCallArgs list" where
  "elevenOfTwenty = replicate 9 (sampleArgs None) @ replicate 11 (sampleArgs (Some ''boom''))"

text \<open>A property of an entry handed to the sink.\<close>

definition entryField :: "jsval \<Rightarrow> string \<Rightarrow> jsval" where
  "entryField entry k = (case entry of JObj ob \<Rightarrow> obj_get ob k | _ \<Rightarrow> JUndefined)"

text \<open>The keys of a \<open>Map\<close> are distinct, and the store never holds more than one
  trace over \<open>MAX_TRACES\<close>.\<close>

definition wellFormed :: "traces \<Rightarrow> bool" where
  "wellFormed s = (distinct (map fst s) \<and> length s \<le> MAX_TRACES + 1)"

definition noMetadata :: TraceMetadata where
  "noMetadata =
     \<lparr>tm_procedure = None, tm_userId = None, tm_sessionId = None, tm_ip = None,
      tm_userAgent = None, tm_requestId = None\<rparr>"

definition freshTrace :: "string \<Rightarrow> int \<Rightarrow> RequestTrace" where
  "freshTrace traceId start =
     \<lparr>trace_traceId = traceId, trace_startTime = start, trace_endTime = None,
      trace_duration = None, trace_spans = [], trace_metadata = noMetadata\<rparr>"

text \<open>\<open>n\<close> traces with different identifiers, the \<open>i\<close>-th created at time \<open>i\<close>, and
  the operations that create them.\<close>

definition key :: "nat \<Rightarrow> string" where
  "key i = replicate i (CHR ''t'')"

definition fullStore :: "nat \<Rightarrow> traces" where
  "fullStore n = map (\<lambda>i. (key i, freshTrace (key i) (int i))) [0..<n]"

definition createAll :: "nat \<Rightarrow> store_op list" where
  "createAll n = map (\<lambda>i. CreateTrace (int i) (key i) noMetadata) [0..<n]"

text \<open>A trace with one span that was completed with an error.\<close>

definition sampleSpec :: SpanSpec where
  "sampleSpec =
     \<lparr>spec_name = ''db.query'', spec_endTime = None, spec_duration = None,
      spec_metadata = None, spec_error = None, spec_tags = None\<rparr>"

definition failedSpanOps :: "store_op list" where
  "failedSpanOps =
     [CreateTrace 0 ''t1'' noMetadata, AddSpan ''sp1'' 1 ''t1'' sampleSpec,
      CompleteSpan 2 ''t1'' ''sp1'' None (Some ''boom'')]"

text \<open>The identifier of the \<open>i\<close>-th span of a trace, and the operations that complete
  a span with a given identifier in a given trace.\<close>

definition spanIdAt :: "traces \<Rightarrow> string \<Rightarrow> nat \<Rightarrow> string option" where
  "spanIdAt s traceId i =
     (case map_of s traceId of
        None \<Rightarrow> None
      | Some trace \<Rightarrow>
          (if i < length (trace_spans trace) then Some (span_id (trace_spans trace ! i))
           else None))"

fun completesSpan :: "string \<Rightarrow> string option \<Rightarrow> store_op \<Rightarrow> bool" where
  "completesSpan k sid (CompleteSpan now traceId spanId metadata err) =
     (traceId = k \<and> sid = Some spanId)"
| "completesSpan k sid x = False"

text \<open>A request context that carries its trace identifier in the header only.\<close>

definition headerCtx :: RequestCtx where
  "headerCtx =
     \<lparr>ctx_var_traceId = None, ctx_get_traceId = None,
      ctx_header = (\<lambda>name. if name = ''X-Trace-ID'' then Some ''t1'' else None)\<rparr>"

section \<open>The logging facade and the session statistics\<close>

lemma fst_catch_and_log: "fst (catch_and_log r) = Inr ()"
  by (cases r) (auto simp: catch_and_log_def split: sum.splits)

lemma sessionStats_catch_and_log: "sessionStats (snd (catch_and_log r)) = sessionStats (snd r)"
  by (cases r) (auto simp: catch_and_log_def split: sum.splits)

lemma sessionStats_logSingleCall:
  "sessionStats (snd (logSingleCall snk u1 u2 sid uid lg w)) = sessionStats w"
  by (simp add: logSingleCall_def sessionStats_catch_and_log submitLog_def Let_def)

lemma fst_logCall: "fst (logCall snk uuid u1 u2 stamp now cd w) = Inr ()"
  by (simp add: logCall_def Let_def split_beta fst_catch_and_log)

lemma sessionStats_logCall:
  "sessionStats (snd (logCall snk uuid u1 u2 stamp now cd w)) =
   updateSessionStats now (log_sessionId cd) (log_userId cd) (stampLog uuid stamp cd) (sessionStats w)"
  by (simp add: logCall_def Let_def split_beta sessionStats_catch_and_log sessionStats_logSingleCall)

lemma stampLog_simps:
  "log_error (stampLog uuid stamp cd) = log_error cd"
  "log_duration (stampLog uuid stamp cd) = log_duration cd"
  "log_procedure (stampLog uuid stamp cd) = log_procedure cd"
  "log_metadata (stampLog uuid stamp cd) = log_metadata cd"
  "log_timestamp (stampLog uuid stamp cd) = stamp"
  "log_id (stampLog uuid stamp cd) = uuid"
  by (simp_all add: stampLog_def CallData.defs TRPCCallLog.defs)

lemma countersOf_updateSessionStats:
  "countersOf (updateSessionStats now sid uid lg m) sid =
   (fst (countersOf m sid) + 1,
    fst (snd (countersOf m sid)) + (if truthy_str (log_error lg) then 1 else 0),
    snd (snd (countersOf m sid)) + log_duration lg)"
  by (simp add: countersOf_def updateSessionStats_def freshState_def Let_def split: option.splits)

lemma updateSessionStats_other:
  "sid' \<noteq> sid \<Longrightarrow> updateSessionStats now sid uid lg m sid' = m sid'"
  by (simp add: updateSessionStats_def Let_def)

lemma updateSessionStats_present: "updateSessionStats now sid uid lg m sid \<noteq> None"
  by (simp add: updateSessionStats_def Let_def)

lemma logCall_console:
  "console (snd (logCall snk uuid u1 u2 stamp now cd w)) =
   console w @
     (if isLoggingProcedure (log_procedure cd) then []
      else (case snk (JArr [logEntry (generateId u1) (generateId u2) (log_sessionId cd)
                              (log_userId cd) (stampLog uuid stamp cd)]) of
              None \<Rightarrow> []
            | Some msg \<Rightarrow> [''Failed to log TRPC call to Datadog: '' @ msg]))"
  by (simp add: logCall_def logSingleCall_def catch_and_log_def submitLog_def Let_def split_beta
      stampLog_simps error_text_def split: option.splits)

lemma logCall_submitted:
  "submitted (snd (logCall snk uuid u1 u2 stamp now cd w)) =
   submitted w @
     (if isLoggingProcedure (log_procedure cd) then []
      else [JArr [logEntry (generateId u1) (generateId u2) (log_sessionId cd) (log_userId cd)
                    (stampLog uuid stamp cd)]])"
  by (simp add: logCall_def logSingleCall_def catch_and_log_def submitLog_def Let_def split_beta
      stampLog_simps error_text_def split: option.splits)

text \<open>
  Claim C1. Whatever the sink does with the entry (accept it or reject it), \<open>logCall\<close>
  returns normally, and afterwards the aggregate of the call's session exists and its
  counters are the earlier ones (zero for a session not seen before) with
  \<open>totalCalls\<close> one higher, \<open>totalDuration\<close> higher by the call's duration and
  \<open>totalErrors\<close> one higher exactly when the call carries an error, that is when its
  \<open>error\<close> is a non-empty string, the test \<open>if (log.error)\<close> makes. A rejection by
  the sink ends as one \<open>console.error\<close> line.
\<close>

theorem logCall_swallows_export_failure_and_records:
  "fst (logCall snk uuid u1 u2 stamp now cd w) = Inr () \<and>
   sessionStats (snd (logCall snk uuid u1 u2 stamp now cd w)) (log_sessionId cd) \<noteq> None \<and>
   countersOf (sessionStats (snd (logCall snk uuid u1 u2 stamp now cd w))) (log_sessionId cd) =
     (fst (countersOf (sessionStats w) (log_sessionId cd)) + 1,
      fst (snd (countersOf (sessionStats w) (log_sessionId cd)))
        + (if truthy_str (log_error cd) then 1 else 0),
      snd (snd (countersOf (sessionStats w) (log_sessionId cd))) + log_duration cd) \<and>
   console (snd (logCall snk uuid u1 u2 stamp now cd w)) =
     console w @
       (if isLoggingProcedure (log_procedure cd) then []
        else (case snk (JArr [logEntry (generateId u1) (generateId u2) (log_sessionId cd)
                                (log_userId cd) (stampLog uuid stamp cd)]) of
                None \<Rightarrow> []
              | Some msg \<Rightarrow> [''Failed to log TRPC call to Datadog: '' @ msg]))"
  by (simp add: fst_logCall sessionStats_logCall countersOf_updateSessionStats stampLog_simps
      updateSessionStats_present logCall_console)

theorem logCall_swallows_export_failure_and_records_witness:
  "fst (logCall failingSink ''id'' ''a-b'' ''c-d'' 5 6 (sampleCall ''mail.send'' (Some ''boom''))
          emptyWorld) = Inr () \<and>
   countersOf (sessionStats (snd (logCall failingSink ''id'' ''a-b'' ''c-d'' 5 6
          (sampleCall ''mail.send'' (Some ''boom'')) emptyWorld))) ''s1'' = (1, 1, 42) \<and>
   console (snd (logCall failingSink ''id'' ''a-b'' ''c-d'' 5 6
          (sampleCall ''mail.send'' (Some ''boom'')) emptyWorld)) =
     [''Failed to log TRPC call to Datadog: 503 Service Unavailable'']"
  using logCall_swallows_export_failure_and_records
          [of failingSink "''id''" "''a-b''" "''c-d''" 5 6 "sampleCall ''mail.send'' (Some ''boom'')"
              emptyWorld]
  by (simp add: sampleCall_def emptyWorld_def countersOf_def failingSink_def
      isLoggingProcedure_def loggingProcedures_def)

text \<open>
  Claim C2, as the code has it. For a call whose procedure is one of the four logging
  procedures the exporter does nothing: \<open>logSingleCall\<close> returns at once with the
  world as it was, so nothing reaches the sink and nothing is written to the console.
  \<open>logCall\<close> still records the call: the guard sits in the exporter only, and
  \<open>updateSessionStats\<close> runs after it as for any other call.
\<close>

theorem logging_procedure_not_exported_but_counted:
  "isLoggingProcedure (log_procedure cd) \<Longrightarrow>
   logSingleCall snk u1 u2 (log_sessionId cd) (log_userId cd) (stampLog uuid stamp cd) w
     = (Inr (), w) \<and>
   submitted (snd (logCall snk uuid u1 u2 stamp now cd w)) = submitted w \<and>
   console (snd (logCall snk uuid u1 u2 stamp now cd w)) = console w \<and>
   sessionStats (snd (logCall snk uuid u1 u2 stamp now cd w)) =
     updateSessionStats now (log_sessionId cd) (log_userId cd) (stampLog uuid stamp cd)
       (sessionStats w) \<and>
   countersOf (sessionStats (snd (logCall snk uuid u1 u2 stamp now cd w))) (log_sessionId cd) =
     (fst (countersOf (sessionStats w) (log_sessionId cd)) + 1,
      fst (snd (countersOf (sessionStats w) (log_sessionId cd)))
        + (if truthy_str (log_error cd) then 1 else 0),
      snd (snd (countersOf (sessionStats w) (log_sessionId cd))) + log_duration cd)"
  by (simp add: logSingleCall_def stampLog_simps logCall_console logCall_submitted
        sessionStats_logCall countersOf_updateSessionStats)

lemma emptyWorld_simps:
  "countersOf (sessionStats emptyWorld) sid = (0, 0, 0)"
  "sessionStats emptyWorld sid = None"
  "submitted emptyWorld = []"
  "console emptyWorld = []"
  by (simp_all add: emptyWorld_def countersOf_def)

lemma isLoggingProcedure_getSessionStats: "isLoggingProcedure ''logging.getSessionStats''"
  by (simp add: isLoggingProcedure_def loggingProcedures_def)

theorem logging_procedure_not_exported_but_counted_witness:
  "isLoggingProcedure (log_procedure (sampleCall ''logging.getSessionStats'' None)) \<and>
   submitted (snd (logCall failingSink ''id'' ''a-b'' ''c-d'' 5 6
       (sampleCall ''logging.getSessionStats'' None) emptyWorld)) = [] \<and>
   console (snd (logCall failingSink ''id'' ''a-b'' ''c-d'' 5 6
       (sampleCall ''logging.getSessionStats'' None) emptyWorld)) = [] \<and>
   countersOf (sessionStats (snd (logCall failingSink ''id'' ''a-b'' ''c-d'' 5 6
       (sampleCall ''logging.getSessionStats'' None) emptyWorld))) ''s1'' = (1, 0, 42)"
proof -
  let ?cd = "sampleCall ''logging.getSessionStats'' None"
  let ?w = "snd (logCall failingSink ''id'' ''a-b'' ''c-d'' 5 6 ?cd emptyWorld)"
  have h: "isLoggingProcedure (log_procedure ?cd)"
    by (simp add: sampleCall_def isLoggingProcedure_getSessionStats)
  note t = logging_procedure_not_exported_but_counted
             [OF h, of failingSink "''a-b''" "''c-d''" "''id''" 5 emptyWorld 6]
  note sub = t [THEN conjunct2, THEN conjunct1]
  note con = t [THEN conjunct2, THEN conjunct2, THEN conjunct1]
  note cnt = t [THEN conjunct2, THEN conjunct2, THEN conjunct2, THEN conjunct2]
  have sid: "log_sessionId ?cd = ''s1''" and err: "log_error ?cd = None"
    and dur: "log_duration ?cd = 42"
    by (simp_all add: sampleCall_def)
  from cnt have "countersOf (sessionStats ?w) ''s1'' = (1, 0, 42)"
    unfolding sid err dur by (simp add: emptyWorld_simps)
  with h sub con show ?thesis
    by (simp add: emptyWorld_simps)
qed

text \<open>
  The claim as stated fails: a call of \<open>logging.getSessionStats\<close> leaves the session
  map changed, the session \<open>s1\<close> having an aggregate afterwards and none before.
\<close>

theorem logging_procedure_changes_session_stats:
  "isLoggingProcedure (log_procedure (sampleCall ''logging.getSessionStats'' None)) \<and>
   sessionStats emptyWorld ''s1'' = None \<and>
   map_option totalCalls
     (sessionStats (snd (logCall failingSink ''id'' ''a-b'' ''c-d'' 5 6
        (sampleCall ''logging.getSessionStats'' None) emptyWorld)) ''s1'') = Some 1 \<and>
   sessionStats (snd (logCall failingSink ''id'' ''a-b'' ''c-d'' 5 6
        (sampleCall ''logging.getSessionStats'' None) emptyWorld)) \<noteq> sessionStats emptyWorld"
proof -
  let ?w = "snd (logCall failingSink ''id'' ''a-b'' ''c-d'' 5 6
        (sampleCall ''logging.getSessionStats'' None) emptyWorld)"
  have calls: "map_option totalCalls (sessionStats ?w ''s1'') = Some 1"
    by (simp add: sessionStats_logCall updateSessionStats_def Let_def sampleCall_def
        emptyWorld_def freshState_def)
  have before: "sessionStats emptyWorld ''s1'' = None"
    by (simp add: emptyWorld_def)
  from calls before have "sessionStats ?w ''s1'' \<noteq> sessionStats emptyWorld ''s1''"
    by auto
  then have "sessionStats ?w \<noteq> sessionStats emptyWorld"
    by metis
  with calls before show ?thesis
    by (simp add: sampleCall_def isLoggingProcedure_getSessionStats)
qed

text \<open>Recording a run of calls adds, for each session, the number of its calls, the
  number of them that carry an error and the sum of their durations.\<close>

lemma sessionStats_logCallWith:
  "sessionStats (snd (logCallWith a w)) =
   updateSessionStats (arg_now a) (log_sessionId (arg_callData a)) (log_userId (arg_callData a))
     (stampLog (arg_uuid a) (arg_stamp a) (arg_callData a)) (sessionStats w)"
  by (simp add: logCallWith_def sessionStats_logCall)

lemma countersOf_other:
  "sid' \<noteq> sid \<Longrightarrow> countersOf (updateSessionStats now sid uid lg m) sid' = countersOf m sid'"
  by (simp add: countersOf_def updateSessionStats_other)

lemma countersOf_logCalls:
  "countersOf (sessionStats (logCalls calls w)) sid =
   (fst (countersOf (sessionStats w) sid) + int (length (callsOf sid calls)),
    fst (snd (countersOf (sessionStats w) sid)) + errorCount (callsOf sid calls),
    snd (snd (countersOf (sessionStats w) sid)) + durationSum (callsOf sid calls))"
proof (induction calls arbitrary: w)
  case Nil
  show ?case by (simp add: callsOf_def errorCount_def durationSum_def)
next
  case (Cons a rest)
  show ?case
  proof (cases "log_sessionId (arg_callData a) = sid")
    case True
    then show ?thesis
      using Cons.IH [of "snd (logCallWith a w)"]
      by (simp add: sessionStats_logCallWith countersOf_updateSessionStats stampLog_simps
          callsOf_def errorCount_def durationSum_def)
  next
    case False
    then show ?thesis
      using Cons.IH [of "snd (logCallWith a w)"]
      by (simp add: sessionStats_logCallWith countersOf_other callsOf_def)
  qed
qed

lemma countersOf_absentOrZeroed: "absentOrZeroed m sid \<Longrightarrow> countersOf m sid = (0, 0, 0)"
  by (simp add: absentOrZeroed_def countersOf_def zeroed_def split: option.splits)

subsection \<open>Rounding to a double\<close>

text \<open>
  \<open>floor_log2\<close> finds the binade of a positive rational, so \<open>round_double\<close> keeps
  53 significant bits; in the range of the normal numbers the result is finite and
  within a relative error of \<open>2 ^ -53\<close>.
\<close>

lemma round_half_even_error: "\<bar>of_int (round_half_even y) - y\<bar> \<le> 1 / 2"
proof -
  have "of_int \<lfloor>y\<rfloor> \<le> y" "y < of_int \<lfloor>y\<rfloor> + 1" by linarith+
  then show ?thesis
    by (auto simp: round_half_even_def Let_def)
qed

lemma round_half_even_nonneg: "0 \<le> y \<Longrightarrow> 0 \<le> round_half_even y"
  by (auto simp: round_half_even_def Let_def)

lemma round_half_even_le: "y \<le> of_int M \<Longrightarrow> round_half_even y \<le> M"
proof -
  assume a: "y \<le> of_int M"
  show ?thesis
  proof (cases "y = of_int M")
    case True
    then show ?thesis by (simp add: round_half_even_def Let_def)
  next
    case False
    with a have "y < of_int M" by simp
    then have "\<lfloor>y\<rfloor> < M" by (simp add: floor_less_iff)
    then show ?thesis by (auto simp: round_half_even_def Let_def)
  qed
qed

lemma bitlen_pos_bounds:
  assumes "1 \<le> (n::int)"
  shows "0 \<le> bitlen n - 1" "(2::rat) powi (bitlen n - 1) \<le> of_int n" "of_int n + 1 \<le> (2::rat) powi (bitlen n)"
proof -
  from assms have pos: "0 < n" by simp
  from bitlen_bounds [OF pos] have lo: "2 ^ nat (bitlen n - 1) \<le> n" and hi: "n < 2 ^ nat (bitlen n)"
    by simp_all
  have b1: "1 \<le> bitlen n" using pos by (auto simp: bitlen_alt_def)
  then show "0 \<le> bitlen n - 1" by simp
  have "(2::rat) powi (bitlen n - 1) = of_int (2 ^ nat (bitlen n - 1))"
    using b1 by (simp add: power_int_def)
  also have "\<dots> \<le> of_int n" using lo by (simp only: of_int_le_iff)
  finally show "(2::rat) powi (bitlen n - 1) \<le> of_int n" .
  from hi have "n + 1 \<le> 2 ^ nat (bitlen n)" by simp
  then have "(of_int (n + 1) :: rat) \<le> of_int (2 ^ nat (bitlen n))" by (simp only: of_int_le_iff)
  also have "\<dots> = (2::rat) powi (bitlen n)" using b1 by (simp add: power_int_def)
  finally show "of_int n + 1 \<le> (2::rat) powi (bitlen n)" by simp
qed

lemma floor_log2_bounds:
  assumes "0 < x"
  shows "2 powi (floor_log2 x) \<le> x \<and> x < 2 powi (floor_log2 x + 1)"
proof (cases "1 \<le> x")
  case True
  let ?n = "\<lfloor>x\<rfloor>"
  from True have n: "1 \<le> ?n" by simp
  have fl: "of_int ?n \<le> x" "x < of_int ?n + 1" by linarith+
  note b = bitlen_pos_bounds [OF n]
  have lo: "2 powi (bitlen ?n - 1) \<le> x" using b(2) fl(1) by linarith
  have "x < 2 powi (bitlen ?n)" using b(3) fl(2) by linarith
  then have hi: "x < 2 powi (bitlen ?n - 1 + 1)" by simp
  from True lo hi show ?thesis
    by (simp only: floor_log2_def if_True)
next
  case False
  let ?n = "\<lfloor>1 / x\<rfloor>"
  define j where "j = bitlen ?n - 1"
  define P where "P = (2::rat) powi j"
  from False assms have y1: "1 < 1 / x" by simp
  then have n: "1 \<le> ?n" by simp
  have fl: "of_int ?n \<le> 1 / x" "1 / x < of_int ?n + 1" by linarith+
  note b = bitlen_pos_bounds [OF n]
  have P: "0 < P" by (simp add: P_def)
  have e1: "2 powi (- j) = 1 / P"
    by (simp add: P_def power_int_minus divide_inverse)
  have e4: "2 powi (j + 1) = 2 * P"
    by (simp add: P_def power_int_add)
  have e2: "2 powi (- j + 1) = 2 / P"
  proof -
    have "(2::rat) powi (- j + 1) = 2 powi (- j) * 2 powi 1" by (rule power_int_add) simp
    also have "\<dots> = 2 / P" unfolding e1 by simp
    finally show ?thesis .
  qed
  have e3: "2 powi (- j - 1) = 1 / (2 * P)"
  proof -
    have "(2::rat) powi (- j - 1) = 2 powi (- j) / 2 powi 1" by (rule power_int_diff) simp
    also have "\<dots> = 1 / (2 * P)" unfolding e1 by simp
    finally show ?thesis .
  qed
  have e5: "2 powi (- j - 1 + 1) = 1 / P"
    using e1 by simp
  have lo: "P \<le> 1 / x" using b(2) fl(1) unfolding P_def j_def by linarith
  have "1 / x < 2 powi (bitlen ?n)" using b(3) fl(2) by linarith
  then have hi: "1 / x < 2 * P" unfolding e4 [symmetric] j_def by simp
  have fl2: "floor_log2 x = (if x * P = 1 then - j else - j - 1)"
    using False by (simp add: floor_log2_def Let_def j_def P_def)
  show ?thesis
  proof (cases "x * P = 1")
    case True
    then have x: "x = 1 / P" using P by (simp add: field_simps)
    have lt: "1 / P < 2 / P" using P by (simp add: field_simps)
    from True have flx: "floor_log2 x = - j" by (simp add: fl2)
    show ?thesis
      unfolding flx e1 e2 using x lt by simp
  next
    case ne: False
    from lo ne assms P have "P < 1 / x"
      by (auto simp: field_simps less_le)
    then have up: "x < 1 / P"
      using assms P by (simp add: field_simps)
    from hi assms P have low: "1 / (2 * P) \<le> x"
      by (simp add: field_simps)
    from ne have flx: "floor_log2 x = - j - 1" by (simp add: fl2)
    show ?thesis
      unfolding flx e3 e5 using up low by simp
  qed
qed


lemma power_int_2_less_cancel: "(2::rat) powi m < 2 powi n \<Longrightarrow> m < n"
proof (rule ccontr)
  assume lt: "(2::rat) powi m < 2 powi n" and "\<not> m < n"
  then have "n \<le> m" by simp
  then have "(2::rat) powi n \<le> 2 powi m" by (rule power_int_increasing) simp
  with lt show False by simp
qed

lemma power_int_2_le_mono: "m \<le> n \<Longrightarrow> (2::rat) powi m \<le> 2 powi n"
  by (simp add: power_int_increasing)

lemma round_double_normal:
  assumes lo: "2 powi (- 1022) \<le> \<bar>x\<bar>" and hi: "\<bar>x\<bar> < 2 powi 1023"
  shows "\<exists>r. round_double x = Fin r \<and> \<bar>r - x\<bar> \<le> \<bar>x\<bar> * 2 powi (- 53)"
proof -
  define a where "a = \<bar>x\<bar>"
  define lg where "lg = floor_log2 a"
  define Q where "Q = (2::rat) powi (lg - 52)"
  define m where "m = round_half_even (a / Q)"
  have "(0::rat) < 2 powi (- 1022)" by simp
  with lo have apos: "0 < a" unfolding a_def by linarith
  then have x0: "x \<noteq> 0" unfolding a_def by auto
  from floor_log2_bounds [OF apos] have b1: "2 powi lg \<le> a" and b2: "a < 2 powi (lg + 1)"
    unfolding lg_def by simp_all
  from lo b2 have "(2::rat) powi (- 1022) < 2 powi (lg + 1)" unfolding a_def by linarith
  then have lg_lo: "- 1022 \<le> lg" using power_int_2_less_cancel [of "- 1022" "lg + 1"] by simp
  from hi b1 have "(2::rat) powi lg < 2 powi 1023" unfolding a_def by linarith
  then have lg_hi: "lg \<le> 1022" using power_int_2_less_cancel [of lg 1023] by simp
  have e: "max (lg - 52) (- 1074) = lg - 52" using lg_lo by simp
  have Q: "0 < Q" by (simp add: Q_def)
  have Q53: "2 powi (lg + 1) = 2 ^ 53 * Q"
  proof -
    have "lg + 1 = 53 + (lg - 52)" by simp
    then have "(2::rat) powi (lg + 1) = 2 powi (53 + (lg - 52))" by (rule arg_cong)
    also have "\<dots> = 2 powi 53 * 2 powi (lg - 52)" by (rule power_int_add) simp
    finally show ?thesis by (simp add: Q_def)
  qed
  have Qh: "Q / 2 = 2 powi lg * 2 powi (- 53)"
  proof -
    have "lg - 52 = lg + (- 52)" by simp
    then have "(2::rat) powi (lg - 52) = 2 powi (lg + (- 52))" by (rule arg_cong)
    also have "\<dots> = 2 powi lg * 2 powi (- 52)" by (rule power_int_add) simp
    finally have "Q = 2 powi lg * 2 powi (- 52)" by (simp add: Q_def)
    then show ?thesis by (simp add: power_int_minus)
  qed
  have err: "\<bar>of_int m - a / Q\<bar> \<le> 1 / 2"
    unfolding m_def by (rule round_half_even_error)
  have "\<bar>of_int m * Q - a\<bar> = \<bar>of_int m - a / Q\<bar> * Q"
  proof -
    have "of_int m * Q - a = (of_int m - a / Q) * Q" using Q by (simp add: field_simps)
    then show ?thesis using Q by (simp add: abs_mult)
  qed
  also have "\<dots> \<le> 1 / 2 * Q" using err Q by (simp add: mult_right_mono)
  also have "\<dots> = 2 powi lg * 2 powi (- 53)" using Qh by simp
  also have "\<dots> \<le> a * 2 powi (- 53)" using b1 by (simp add: mult_right_mono)
  finally have bound: "\<bar>of_int m * Q - a\<bar> \<le> a * 2 powi (- 53)" .
  have "a / Q \<le> of_int (2 ^ 53)"
    using b2 Q unfolding Q53 by (simp add: field_simps)
  then have "m \<le> 2 ^ 53" unfolding m_def by (rule round_half_even_le)
  then have "(of_int m :: rat) \<le> 2 ^ 53" by (metis of_int_le_iff of_int_numeral of_int_power)
  then have "of_int m * Q \<le> 2 ^ 53 * Q" using Q by (simp add: mult_right_mono)
  also have "\<dots> = 2 powi (lg + 1)" by (simp only: Q53)
  also have "\<dots> \<le> 2 powi 1023" using lg_hi by (intro power_int_2_le_mono) simp
  also have "\<dots> < 2 powi 1024" by (simp add: power_int_strict_increasing)
  finally have fin: "\<not> 2 powi 1024 \<le> of_int m * Q" by simp
  have rd: "round_double x = Fin (sgn x * (of_int m * Q))"
    using x0 fin e
    by (simp add: round_double_def Let_def a_def [symmetric] lg_def [symmetric]
        Q_def [symmetric] m_def [symmetric])
  have "\<bar>sgn x * (of_int m * Q) - x\<bar> = \<bar>sgn x * (of_int m * Q - a)\<bar>"
  proof -
    have "x = sgn x * a" unfolding a_def by (simp add: sgn_mult_abs)
    then have "sgn x * (of_int m * Q) - x = sgn x * (of_int m * Q) - sgn x * a" by simp
    then show ?thesis by (simp only: right_diff_distrib [symmetric])
  qed
  also have "\<dots> = \<bar>of_int m * Q - a\<bar>"
    using x0 by (simp add: abs_mult abs_sgn_eq)
  finally have "\<bar>sgn x * (of_int m * Q) - x\<bar> \<le> \<bar>x\<bar> * 2 powi (- 53)"
    using bound unfolding a_def by simp
  with rd show ?thesis by blast
qed


lemma tiny_le: "(2::rat) powi (- 1022) \<le> 1 / 2 ^ 53"
proof -
  have "(2::rat) powi (- 1022) \<le> 2 powi (- 53)" by (rule power_int_2_le_mono) simp
  then show ?thesis by (simp add: power_int_minus field_simps)
qed

lemma huge_ge: "(2::rat) ^ 53 \<le> 2 powi 1023"
proof -
  have "(2::rat) powi 53 \<le> 2 powi 1023" by (rule power_int_2_le_mono) simp
  then show ?thesis by simp
qed

lemma ulp_53: "(2::rat) powi (- 53) = 1 / 2 ^ 53"
  by (simp add: power_int_minus field_simps)

lemma ulp_51: "(2::rat) powi (- 51) = 1 / 2 ^ 51"
  by (simp add: power_int_minus field_simps)

lemma round_double_zero: "round_double 0 = Fin 0"
  by (simp add: round_double_def)

lemma quotient_range:
  assumes N: "0 < N" "N < 2 ^ 53" and D: "D \<noteq> 0" "\<bar>D\<bar> < 2 ^ 53"
  shows "1 / 2 ^ 53 < \<bar>rat_of_int D / rat_of_int N\<bar>" "\<bar>rat_of_int D / rat_of_int N\<bar> < 2 ^ 53"
proof -
  have n0: "(0::rat) < of_int N" using N(1) by simp
  have n1: "(1::rat) \<le> of_int N" using N(1) by (simp add: int_one_le_iff_zero_less)
  have n53: "rat_of_int N < 2 ^ 53" using N(2) by (metis of_int_less_iff of_int_numeral of_int_power)
  have "1 \<le> \<bar>D\<bar>" using D(1) by simp
  then have "(of_int 1 :: rat) \<le> of_int \<bar>D\<bar>" by (simp only: of_int_le_iff)
  then have "(1::rat) \<le> of_int \<bar>D\<bar>" by simp
  then have d1: "(1::rat) \<le> \<bar>of_int D\<bar>" by simp
  have d53: "\<bar>rat_of_int D\<bar> < 2 ^ 53"
    using D(2) by (metis of_int_abs of_int_less_iff of_int_numeral of_int_power)
  have eq: "\<bar>rat_of_int D / rat_of_int N\<bar> = \<bar>of_int D\<bar> / of_int N"
    using n0 by (simp add: abs_divide)
  have "1 / 2 ^ 53 < 1 / rat_of_int N" using n0 n53 by (simp add: field_simps)
  also have "\<dots> \<le> \<bar>of_int D\<bar> / of_int N" using d1 n0 by (simp add: divide_right_mono)
  finally show "1 / 2 ^ 53 < \<bar>rat_of_int D / rat_of_int N\<bar>" by (simp only: eq)
  have "\<bar>rat_of_int D\<bar> / of_int N \<le> \<bar>of_int D\<bar> / 1" using n1 by (intro divide_left_mono) simp_all
  then have "\<bar>rat_of_int D\<bar> / of_int N \<le> \<bar>of_int D\<bar>" by simp
  also note d53
  finally show "\<bar>rat_of_int D / rat_of_int N\<bar> < 2 ^ 53" by (simp only: eq)
qed

lemma js_div_accuracy:
  assumes N: "0 < N" "N < 2 ^ 53" and D: "\<bar>D\<bar> < 2 ^ 53"
  shows "\<exists>a. js_div D N = Fin a \<and>
           \<bar>a - of_int D / of_int N\<bar> \<le> \<bar>of_int D / of_int N\<bar> * 2 powi (- 53)"
proof (cases "D = 0")
  case True
  with N show ?thesis by (simp add: js_div_def round_double_zero)
next
  case False
  note r = quotient_range [OF N False D]
  have lo: "2 powi (- 1022) \<le> \<bar>rat_of_int D / rat_of_int N\<bar>"
    by (rule order_trans [OF tiny_le less_imp_le [OF r(1)]])
  have hi: "\<bar>rat_of_int D / rat_of_int N\<bar> < 2 powi 1023"
    by (rule less_le_trans [OF r(2) huge_ge])
  from round_double_normal [OF lo hi] N show ?thesis
    by (simp add: js_div_def)
qed


lemma error_rate_accuracy:
  assumes N: "0 < N" "N < 2 ^ 53" and E: "0 \<le> E" "E \<le> N"
  shows "\<exists>r. js_mul (js_div E N) (Fin 100) = Fin r \<and>
           \<bar>r - 100 * of_int E / of_int N\<bar> \<le> (100 * of_int E / of_int N) * 2 powi (- 51)"
proof (cases "E = 0")
  case True
  with N show ?thesis by (simp add: js_div_def round_double_zero)
next
  case False
  define q where "q = rat_of_int E / rat_of_int N"
  from E N have Eabs: "\<bar>E\<bar> < 2 ^ 53" by simp
  from js_div_accuracy [OF N Eabs] obtain a where a: "js_div E N = Fin a"
    and aerr: "\<bar>a - q\<bar> \<le> \<bar>q\<bar> * 2 powi (- 53)"
    unfolding q_def by blast
  from quotient_range(1) [OF N False Eabs] have qlo: "1 / 2 ^ 53 < \<bar>q\<bar>" unfolding q_def .
  have q0: "0 \<le> q" using E(1) N(1) unfolding q_def by simp
  have q1: "q \<le> 1" using E(2) N(1) unfolding q_def by simp
  from q0 have qabs: "\<bar>q\<bar> = q" by simp
  have p53: "(2::rat) ^ 53 = 9007199254740992" by simp
  have p51: "(2::rat) ^ 51 = 2251799813685248" by simp
  note aerr' = aerr [unfolded qabs ulp_53 p53]
  note qlo' = qlo [unfolded qabs p53]
  have alo': "1 / 9007199254740992 \<le> a * 100" using aerr' qlo' by linarith
  have ahi': "a * 100 < 9007199254740992" using aerr' q1 q0 by linarith
  from alo' have alo: "1 / 2 ^ 53 \<le> a * 100" by (simp only: p53)
  from ahi' have ahi: "a * 100 < 2 ^ 53" by (simp only: p53)
  have apos: "0 < a * 100" using alo' by linarith
  then have pabs: "\<bar>a * 100\<bar> = a * 100" by simp
  have lo: "2 powi (- 1022) \<le> \<bar>a * 100\<bar>"
    unfolding pabs by (rule order_trans [OF tiny_le alo])
  have hi: "\<bar>a * 100\<bar> < 2 powi 1023"
    unfolding pabs by (rule less_le_trans [OF ahi huge_ge])
  from round_double_normal [OF lo hi] obtain r where r: "round_double (a * 100) = Fin r"
    and rerr: "\<bar>r - a * 100\<bar> \<le> \<bar>a * 100\<bar> * 2 powi (- 53)" by blast
  note rerr' = rerr [unfolded pabs ulp_53 p53]
  have "\<bar>r - 100 * q\<bar> \<le> (100 * q) * (1 / 2251799813685248)"
    using rerr' aerr' q0 by linarith
  then have "\<bar>r - 100 * q\<bar> \<le> (100 * q) * 2 powi (- 51)"
    by (simp only: ulp_51 p51)
  then have "\<bar>r - 100 * of_int E / of_int N\<bar> \<le> (100 * of_int E / of_int N) * 2 powi (- 51)"
    unfolding q_def by simp
  moreover have "js_mul (js_div E N) (Fin 100) = Fin r" by (simp add: a r)
  ultimately show ?thesis by blast
qed

text \<open>Evaluating the rounding on numerals.\<close>

lemma floor_rat_numeral: "\<lfloor>(numeral a :: rat) / numeral b\<rfloor> = numeral a div numeral b"
  using floor_divide_of_int_eq [of "numeral a" "numeral b", where ?'a = rat] by simp

lemma floor_rat_numeral_one: "\<lfloor>(1 :: rat) / numeral b\<rfloor> = 1 div numeral b"
  using floor_divide_of_int_eq [of 1 "numeral b", where ?'a = rat] by simp

lemma bitlen_numeral: "bitlen (numeral k) = bitlen (numeral k div 2) + 1"
  by (subst compute_bitlen) simp

lemma bitlen_one: "bitlen 1 = 1"
  by (subst compute_bitlen) simp

lemmas dbl_eval = js_div_def round_double_def floor_log2_def round_half_even_def Let_def
  floor_rat_numeral floor_rat_numeral_one bitlen_numeral bitlen_one power_int_minus

text \<open>Two familiar doubles: \<open>1 / 3\<close> is \<open>0x3FD5555555555555\<close> and \<open>1 / 10\<close> is
  \<open>0x3FB999999999999A\<close>.\<close>

lemma js_div_1_3: "js_div 1 3 = Fin (6004799503160661 / 2 ^ 54)"
  by (simp add: dbl_eval)

lemma js_div_1_10: "js_div 1 10 = Fin (3602879701896397 / 2 ^ 55)"
  by (simp add: dbl_eval)

subsection \<open>The statistics after a run of calls\<close>

lemma getSessionStats_counters:
  "fst (getSessionStats now sid m) =
   (let (n, e, d) = countersOf m sid in
    \<lparr>stats_totalCalls = n, stats_totalErrors = e, stats_totalDuration = d,
     stats_averageDuration = (if n > 0 then js_div d n else Fin 0),
     stats_errorRate = (if n > 0 then js_mul (js_div e n) (Fin 100) else Fin 0),
     stats_sessionDuration = now - (case m sid of None \<Rightarrow> now | Some st \<Rightarrow> startedAt st)\<rparr>)"
  by (simp add: getSessionStats_def getState_def countersOf_def freshState_def split: option.splits)

lemma statsAfter_counters:
  assumes "absentOrZeroed (sessionStats w) sid"
  shows "stats_totalCalls (statsAfter now sid calls w) = int (length (callsOf sid calls))"
    and "stats_totalErrors (statsAfter now sid calls w) = errorCount (callsOf sid calls)"
    and "stats_totalDuration (statsAfter now sid calls w) = durationSum (callsOf sid calls)"
    and "stats_averageDuration (statsAfter now sid calls w) =
           (if 0 < length (callsOf sid calls)
            then js_div (durationSum (callsOf sid calls)) (int (length (callsOf sid calls)))
            else Fin 0)"
    and "stats_errorRate (statsAfter now sid calls w) =
           (if 0 < length (callsOf sid calls)
            then js_mul (js_div (errorCount (callsOf sid calls)) (int (length (callsOf sid calls))))
                   (Fin 100)
            else Fin 0)"
  using countersOf_absentOrZeroed [OF assms]
  by (simp_all add: statsAfter_def getSessionStats_counters countersOf_logCalls)

lemma errorCount_bounds: "0 \<le> errorCount cs" "errorCount cs \<le> int (length cs)"
  by (simp_all add: errorCount_def)

text \<open>
  Claim C6, as the code has it. Start from a world where the session has no aggregate
  or a zeroed one, and run any sequence of \<open>logCall\<close>s (calls of other sessions may be
  mixed in, and every export may fail). With \<open>N\<close> the number of the session's calls,
  \<open>E\<close> the number of them that carry an error and \<open>D\<close> the sum of their durations,
  \<open>getSessionStats\<close> returns \<open>totalCalls = N\<close>, \<open>totalErrors = E\<close> and
  \<open>totalDuration = D\<close>. When \<open>N > 0\<close>, \<open>averageDuration\<close> is the double \<open>D / N\<close>
  and \<open>errorRate\<close> is the double \<open>(E / N) * 100\<close>: the quotient rounded to a double,
  multiplied by 100 and rounded again. Below \<open>2 ^ 53\<close> calls that is a finite number
  within a relative error of \<open>2 ^ -51\<close> of \<open>100 * E / N\<close>, and the average is within
  \<open>2 ^ -53\<close> of \<open>D / N\<close>; neither has to be equal to it. When \<open>N = 0\<close> both are
  \<open>0\<close>, where the quotients \<open>0 / 0\<close>, left unguarded, would be \<open>NaN\<close>.
\<close>

theorem session_stats_after_calls:
  "absentOrZeroed (sessionStats w) sid \<Longrightarrow>
   stats_totalCalls (statsAfter now sid calls w) = int (length (callsOf sid calls)) \<and>
   stats_totalErrors (statsAfter now sid calls w) = errorCount (callsOf sid calls) \<and>
   stats_totalDuration (statsAfter now sid calls w) = durationSum (callsOf sid calls) \<and>
   stats_averageDuration (statsAfter now sid calls w) =
     (if 0 < length (callsOf sid calls)
      then js_div (durationSum (callsOf sid calls)) (int (length (callsOf sid calls)))
      else Fin 0) \<and>
   stats_errorRate (statsAfter now sid calls w) =
     (if 0 < length (callsOf sid calls)
      then js_mul (js_div (errorCount (callsOf sid calls)) (int (length (callsOf sid calls))))
             (Fin 100)
      else Fin 0) \<and>
   (callsOf sid calls = [] \<longrightarrow>
      stats_averageDuration (statsAfter now sid calls w) = Fin 0 \<and>
      stats_errorRate (statsAfter now sid calls w) = Fin 0 \<and>
      js_div (durationSum (callsOf sid calls)) (int (length (callsOf sid calls))) = NaN \<and>
      js_div (errorCount (callsOf sid calls)) (int (length (callsOf sid calls))) = NaN) \<and>
   (0 < length (callsOf sid calls) \<and> int (length (callsOf sid calls)) < 2 ^ 53 \<longrightarrow>
      (\<exists>r. stats_errorRate (statsAfter now sid calls w) = Fin r \<and>
           \<bar>r - 100 * of_int (errorCount (callsOf sid calls)) / of_int (int (length (callsOf sid calls)))\<bar>
             \<le> (100 * of_int (errorCount (callsOf sid calls)) / of_int (int (length (callsOf sid calls))))
                 * 2 powi (- 51))) \<and>
   (0 < length (callsOf sid calls) \<and> int (length (callsOf sid calls)) < 2 ^ 53 \<and>
    \<bar>durationSum (callsOf sid calls)\<bar> < 2 ^ 53 \<longrightarrow>
      (\<exists>a. stats_averageDuration (statsAfter now sid calls w) = Fin a \<and>
           \<bar>a - of_int (durationSum (callsOf sid calls)) / of_int (int (length (callsOf sid calls)))\<bar>
             \<le> \<bar>of_int (durationSum (callsOf sid calls)) / of_int (int (length (callsOf sid calls)))\<bar>
                 * 2 powi (- 53)))"
proof -
  assume h: "absentOrZeroed (sessionStats w) sid"
  let ?cs = "callsOf sid calls"
  let ?st = "statsAfter now sid calls w"
  note c = statsAfter_counters [OF h, of now calls]
  have empty: "stats_averageDuration ?st = Fin 0 \<and> stats_errorRate ?st = Fin 0 \<and>
      js_div (durationSum ?cs) (int (length ?cs)) = NaN \<and>
      js_div (errorCount ?cs) (int (length ?cs)) = NaN" if "?cs = []"
    using that by (simp add: c(4) c(5) js_div_def durationSum_def errorCount_def)
  have rate: "\<exists>r. stats_errorRate ?st = Fin r \<and>
           \<bar>r - 100 * of_int (errorCount ?cs) / of_int (int (length ?cs))\<bar>
             \<le> (100 * of_int (errorCount ?cs) / of_int (int (length ?cs))) * 2 powi (- 51)"
    if "0 < length ?cs \<and> int (length ?cs) < 2 ^ 53"
  proof -
    from that have n: "0 < int (length ?cs)" "int (length ?cs) < 2 ^ 53" by simp_all
    from that have eq: "stats_errorRate ?st =
        js_mul (js_div (errorCount ?cs) (int (length ?cs))) (Fin 100)"
      by (simp add: c(5))
    show ?thesis
      unfolding eq by (rule error_rate_accuracy [OF n errorCount_bounds])
  qed
  have avg: "\<exists>a. stats_averageDuration ?st = Fin a \<and>
           \<bar>a - of_int (durationSum ?cs) / of_int (int (length ?cs))\<bar>
             \<le> \<bar>of_int (durationSum ?cs) / of_int (int (length ?cs))\<bar> * 2 powi (- 53)"
    if "0 < length ?cs \<and> int (length ?cs) < 2 ^ 53 \<and> \<bar>durationSum ?cs\<bar> < 2 ^ 53"
  proof -
    from that have n: "0 < int (length ?cs)" "int (length ?cs) < 2 ^ 53"
      and d: "\<bar>durationSum ?cs\<bar> < 2 ^ 53" by simp_all
    from that have eq: "stats_averageDuration ?st =
        js_div (durationSum ?cs) (int (length ?cs))"
      by (simp add: c(4))
    show ?thesis
      unfolding eq by (rule js_div_accuracy [OF n d])
  qed
  from c empty rate avg show ?thesis by blast
qed

lemma callsOf_two:
  "callsOf ''s1'' [sampleArgs None, sampleArgs (Some ''boom'')] =
     [sampleCall ''mail.send'' None, sampleCall ''mail.send'' (Some ''boom'')]"
  by (simp add: callsOf_def sampleArgs_def sampleCall_def)

lemma two_calls_counts:
  "errorCount [sampleCall ''mail.send'' None, sampleCall ''mail.send'' (Some ''boom'')] = 1"
  "durationSum [sampleCall ''mail.send'' None, sampleCall ''mail.send'' (Some ''boom'')] = 84"
  by (simp_all add: errorCount_def durationSum_def sampleCall_def)

lemma js_div_84_2: "js_div 84 2 = Fin 42"
  by (simp add: dbl_eval)

lemma error_rate_1_2: "js_mul (js_div 1 2) (Fin 100) = Fin 50"
  by (simp add: dbl_eval)

theorem session_stats_after_calls_witness:
  "absentOrZeroed (sessionStats emptyWorld) ''s1'' \<and>
   stats_totalCalls (statsAfter 9 ''s1'' [sampleArgs None, sampleArgs (Some ''boom'')] emptyWorld) = 2 \<and>
   stats_totalErrors (statsAfter 9 ''s1'' [sampleArgs None, sampleArgs (Some ''boom'')] emptyWorld) = 1 \<and>
   stats_totalDuration (statsAfter 9 ''s1'' [sampleArgs None, sampleArgs (Some ''boom'')] emptyWorld) = 84 \<and>
   stats_averageDuration (statsAfter 9 ''s1'' [sampleArgs None, sampleArgs (Some ''boom'')] emptyWorld)
     = Fin 42 \<and>
   stats_errorRate (statsAfter 9 ''s1'' [sampleArgs None, sampleArgs (Some ''boom'')] emptyWorld)
     = Fin 50"
proof -
  have h: "absentOrZeroed (sessionStats emptyWorld) ''s1''"
    by (simp add: absentOrZeroed_def emptyWorld_def)
  note t = session_stats_after_calls [OF h, of 9 "[sampleArgs None, sampleArgs (Some ''boom'')]"]
  note n = t [THEN conjunct1]
  note e = t [THEN conjunct2, THEN conjunct1]
  note d = t [THEN conjunct2, THEN conjunct2, THEN conjunct1]
  note a = t [THEN conjunct2, THEN conjunct2, THEN conjunct2, THEN conjunct1]
  note r = t [THEN conjunct2, THEN conjunct2, THEN conjunct2, THEN conjunct2, THEN conjunct1]
  from h n e d a r show ?thesis
    by (simp add: callsOf_two two_calls_counts js_div_84_2 error_rate_1_2)
qed

text \<open>
  The claim as stated fails: after twenty calls of which eleven carry an error,
  \<open>100 * E / N\<close> is \<open>55\<close>, and \<open>errorRate\<close> is the next double above it,
  \<open>7740561859543041 / 2 ^ 47\<close>, which prints as \<open>55.00000000000001\<close>: the quotient
  \<open>11 / 20\<close> is rounded up to a double before it is multiplied by 100.
\<close>

lemma callsOf_elevenOfTwenty:
  "callsOf ''s1'' elevenOfTwenty =
     replicate 9 (sampleCall ''mail.send'' None)
     @ replicate 11 (sampleCall ''mail.send'' (Some ''boom''))"
  by (simp add: callsOf_def elevenOfTwenty_def sampleArgs_def sampleCall_def)

lemma elevenOfTwenty_counts:
  "int (length (callsOf ''s1'' elevenOfTwenty)) = 20"
  "errorCount (callsOf ''s1'' elevenOfTwenty) = 11"
  by (simp_all add: callsOf_elevenOfTwenty errorCount_def sampleCall_def)

lemma js_div_11_20: "js_div 11 20 = Fin (2476979795053773 / 4503599627370496)"
  by (simp add: dbl_eval)

lemma error_rate_11_20:
  "js_mul (js_div 11 20) (Fin 100) = Fin (7740561859543041 / 140737488355328)"
  by (simp add: js_div_11_20) (simp add: dbl_eval)

theorem error_rate_is_not_exact:
  "absentOrZeroed (sessionStats emptyWorld) ''s1'' \<and>
   int (length (callsOf ''s1'' elevenOfTwenty)) = 20 \<and>
   errorCount (callsOf ''s1'' elevenOfTwenty) = 11 \<and>
   stats_totalCalls (statsAfter 9 ''s1'' elevenOfTwenty emptyWorld) = 20 \<and>
   stats_totalErrors (statsAfter 9 ''s1'' elevenOfTwenty emptyWorld) = 11 \<and>
   stats_errorRate (statsAfter 9 ''s1'' elevenOfTwenty emptyWorld)
     = Fin (7740561859543041 / 140737488355328) \<and>
   stats_errorRate (statsAfter 9 ''s1'' elevenOfTwenty emptyWorld) \<noteq> Fin (100 * 11 / 20)"
proof -
  have h: "absentOrZeroed (sessionStats emptyWorld) ''s1''"
    by (simp add: absentOrZeroed_def emptyWorld_def)
  note c = statsAfter_counters [OF h, of 9 elevenOfTwenty]
  have n: "stats_totalCalls (statsAfter 9 ''s1'' elevenOfTwenty emptyWorld) = 20"
    by (simp only: c(1) elevenOfTwenty_counts)
  have e: "stats_totalErrors (statsAfter 9 ''s1'' elevenOfTwenty emptyWorld) = 11"
    by (simp only: c(2) elevenOfTwenty_counts)
  have len: "0 < length (callsOf ''s1'' elevenOfTwenty)"
    by (simp add: callsOf_elevenOfTwenty)
  have "stats_errorRate (statsAfter 9 ''s1'' elevenOfTwenty emptyWorld) =
      js_mul (js_div (errorCount (callsOf ''s1'' elevenOfTwenty))
                (int (length (callsOf ''s1'' elevenOfTwenty)))) (Fin 100)"
    using len by (simp only: c(5) if_True)
  then have r: "stats_errorRate (statsAfter 9 ''s1'' elevenOfTwenty emptyWorld)
      = Fin (7740561859543041 / 140737488355328)"
    by (simp only: elevenOfTwenty_counts error_rate_11_20)
  have ne: "Fin (7740561859543041 / 140737488355328) \<noteq> Fin (100 * 11 / 20)"
    by simp
  from h n e r ne show ?thesis
    by (simp add: elevenOfTwenty_counts)
qed

text \<open>
  Claim C10. For a session with no aggregate, \<open>getState\<close> and \<open>getSessionStats\<close>
  both store a fresh aggregate (user id empty, both timestamps \<open>now\<close>, counters zero)
  in the session map. A call recorded afterwards finds that aggregate and keeps its
  empty user id, whereas a call recorded for a session still absent stores the call's
  user id.
\<close>

theorem reads_insert_aggregate:
  "m sid = None \<Longrightarrow>
   snd (getState now sid m) =
     m(sid \<mapsto> \<lparr>sessionId = sid, userId = [], startedAt = now, lastActivity = now,
                totalCalls = 0, totalErrors = 0, totalDuration = 0\<rparr>) \<and>
   snd (getSessionStats now sid m) =
     m(sid \<mapsto> \<lparr>sessionId = sid, userId = [], startedAt = now, lastActivity = now,
                totalCalls = 0, totalErrors = 0, totalDuration = 0\<rparr>) \<and>
   updateSessionStats later sid uid lg (snd (getSessionStats now sid m)) sid =
     Some \<lparr>sessionId = sid, userId = [], startedAt = now, lastActivity = log_timestamp lg,
           totalCalls = 1, totalErrors = (if truthy_str (log_error lg) then 1 else 0),
           totalDuration = log_duration lg\<rparr> \<and>
   updateSessionStats later sid uid lg (snd (getState now sid m)) sid =
     Some \<lparr>sessionId = sid, userId = [], startedAt = now, lastActivity = log_timestamp lg,
           totalCalls = 1, totalErrors = (if truthy_str (log_error lg) then 1 else 0),
           totalDuration = log_duration lg\<rparr> \<and>
   updateSessionStats later sid uid lg m sid =
     Some \<lparr>sessionId = sid, userId = uid, startedAt = later, lastActivity = log_timestamp lg,
           totalCalls = 1, totalErrors = (if truthy_str (log_error lg) then 1 else 0),
           totalDuration = log_duration lg\<rparr>"
  by (simp add: getState_def getSessionStats_def updateSessionStats_def freshState_def Let_def)

theorem reads_insert_aggregate_witness:
  "sessionStats emptyWorld ''s1'' = None \<and>
   map_option userId (snd (getSessionStats 3 ''s1'' (sessionStats emptyWorld)) ''s1'') = Some [] \<and>
   map_option userId
     (updateSessionStats 7 ''s1'' ''u1'' (stampLog ''id'' 5 (sampleCall ''mail.send'' None))
        (snd (getState 3 ''s1'' (sessionStats emptyWorld))) ''s1'') = Some [] \<and>
   map_option userId
     (updateSessionStats 7 ''s1'' ''u1'' (stampLog ''id'' 5 (sampleCall ''mail.send'' None))
        (sessionStats emptyWorld) ''s1'') = Some ''u1''"
proof -
  have h: "sessionStats emptyWorld ''s1'' = None"
    by (simp add: emptyWorld_def)
  note t = reads_insert_aggregate [of "sessionStats emptyWorld" "''s1''" 3 7 "''u1''"
              "stampLog ''id'' 5 (sampleCall ''mail.send'' None)", OF h]
  note viaStats = t [THEN conjunct2, THEN conjunct1]
  note viaState = t [THEN conjunct2, THEN conjunct2, THEN conjunct2, THEN conjunct1]
  note direct = t [THEN conjunct2, THEN conjunct2, THEN conjunct2, THEN conjunct2]
  show ?thesis
    by (simp add: h viaStats viaState direct)
qed

section \<open>The trace store: cleanup and capacity\<close>

text \<open>
  Deleting a list of keys one after the other keeps exactly the entries whose key is
  not in the list, so both passes of \<open>performCleanup\<close> are filters on the key.
\<close>

lemma fold_traces_delete: "fold traces_delete ks s = filter (\<lambda>p. fst p \<notin> set ks) s"
proof (induction ks arbitrary: s)
  case Nil
  show ?case by simp
next
  case (Cons k ks)
  have "fold traces_delete (k # ks) s = filter (\<lambda>p. fst p \<notin> set ks) (filter (\<lambda>p. fst p \<noteq> k) s)"
    by (simp add: Cons.IH traces_delete_def)
  also have "\<dots> = filter (\<lambda>p. fst p \<notin> set (k # ks)) s"
    by (auto intro: filter_cong)
  finally show ?case .
qed

lemma map_of_filter_keys:
  "map_of (filter (\<lambda>p. fst p \<notin> K) s) k = (if k \<in> K then None else map_of s k)"
  by (induction s) auto

lemma distinct_filter_keys: "distinct (map fst s) \<Longrightarrow> distinct (map fst (filter P s))"
  by (simp add: distinct_map_filter)

lemma removeStale_filter:
  "removeStale now s = filter (\<lambda>p. fst p \<notin> set (tracesToDelete now s)) s"
  by (simp add: removeStale_def fold_traces_delete)

lemma evictOldest_filter:
  "\<exists>K. evictOldest s = filter (\<lambda>p. fst p \<notin> K) s"
proof (cases "length s > MAX_TRACES")
  case True
  then show ?thesis
    by (auto simp: evictOldest_def Let_def fold_traces_delete)
next
  case False
  then have "evictOldest s = filter (\<lambda>p. fst p \<notin> {}) s"
    by (simp add: evictOldest_def)
  then show ?thesis by blast
qed

lemma performCleanup_filter:
  "\<exists>K. performCleanup now s = filter (\<lambda>p. fst p \<notin> K) s \<and> set (tracesToDelete now s) \<subseteq> K"
proof -
  obtain K where K: "evictOldest (removeStale now s) = filter (\<lambda>p. fst p \<notin> K) (removeStale now s)"
    using evictOldest_filter by blast
  have "performCleanup now s = filter (\<lambda>p. fst p \<notin> K) (removeStale now s)"
    by (simp add: performCleanup_def K)
  also have "\<dots> = filter (\<lambda>p. fst p \<notin> K)
                      (filter (\<lambda>p. fst p \<notin> set (tracesToDelete now s)) s)"
    by (simp only: removeStale_filter)
  also have "\<dots> = filter (\<lambda>p. fst p \<notin> K \<union> set (tracesToDelete now s)) s"
    by (simp add: conj_commute)
  finally show ?thesis by blast
qed

lemma stale_key: "(tid, tr) \<in> set s \<Longrightarrow> age now tr > TRACE_TTL_MS \<Longrightarrow> tid \<in> set (tracesToDelete now s)"
  by (force simp: tracesToDelete_def)

subsection \<open>The capacity pass\<close>

lemma distinct_fst: "distinct (map fst s) \<Longrightarrow> distinct s"
  by (rule distinct_map [THEN iffD1, THEN conjunct1])

lemma sortedTraces_props:
  "set (sortedTraces s) = set s" "length (sortedTraces s) = length s"
  "distinct (sortedTraces s) = distinct s"
  "sorted (map (\<lambda>p. trace_startTime (snd p)) (sortedTraces s))"
  by (simp_all add: sortedTraces_def)

lemma evictOldest_over:
  assumes d: "distinct (map fst s)" and over: "length s > MAX_TRACES"
  shows "evictOldest s = filter (\<lambda>p. p \<notin> set (take (length s - MAX_TRACES) (sortedTraces s))) s"
proof -
  let ?T = "take (length s - MAX_TRACES) (sortedTraces s)"
  have sub: "set ?T \<subseteq> set s"
    using set_take_subset [of "length s - MAX_TRACES" "sortedTraces s"] by (simp add: sortedTraces_props)
  have inj: "inj_on fst (set s)" using d by (simp add: distinct_map)
  have eq: "\<And>p. p \<in> set s \<Longrightarrow> (fst p \<in> set (map fst ?T)) = (p \<in> set ?T)"
  proof -
    fix p assume p: "p \<in> set s"
    show "(fst p \<in> set (map fst ?T)) = (p \<in> set ?T)"
    proof
      assume "fst p \<in> set (map fst ?T)"
      then obtain q where q: "q \<in> set ?T" "fst q = fst p" by auto
      with sub have "q \<in> set s" by blast
      with inj p q(2) have "q = p" by (auto dest: inj_onD)
      with q(1) show "p \<in> set ?T" by simp
    next
      assume "p \<in> set ?T" then show "fst p \<in> set (map fst ?T)" by auto
    qed
  qed
  have "filter (\<lambda>p. fst p \<notin> set (map fst ?T)) s = filter (\<lambda>p. p \<notin> set ?T) s"
    by (rule filter_cong [OF refl]) (simp only: eq)
  with over show ?thesis
    by (simp add: evictOldest_def Let_def fold_traces_delete)
qed

lemma evictOldest_set:
  assumes d: "distinct (map fst s)" and over: "length s > MAX_TRACES"
  shows "set (evictOldest s) = set (drop (length s - MAX_TRACES) (sortedTraces s))"
    and "set s - set (evictOldest s) = set (take (length s - MAX_TRACES) (sortedTraces s))"
proof -
  let ?n = "length s - MAX_TRACES"
  let ?T = "take ?n (sortedTraces s)" and ?D = "drop ?n (sortedTraces s)"
  have ds: "distinct (sortedTraces s)" using d by (simp add: sortedTraces_props distinct_fst)
  have "distinct (?T @ ?D)" using ds by simp
  then have disj: "set ?T \<inter> set ?D = {}" by (simp only: distinct_append) 
  have un: "set ?T \<union> set ?D = set s"
    using set_append [of ?T ?D] by (simp add: sortedTraces_props)
  have e: "set (evictOldest s) = set s - set ?T"
    by (auto simp: evictOldest_over [OF d over])
  from e disj un show "set (evictOldest s) = set ?D" by blast
  from e un show "set s - set (evictOldest s) = set ?T" by blast
qed

lemma evictOldest_length:
  assumes d: "distinct (map fst s)" and over: "length s > MAX_TRACES"
  shows "length (evictOldest s) = MAX_TRACES"
proof -
  let ?n = "length s - MAX_TRACES"
  have ds: "distinct (sortedTraces s)" using d by (simp add: sortedTraces_props distinct_fst)
  have "distinct (evictOldest s)"
    using d by (simp add: evictOldest_over [OF d over] distinct_fst)
  then have "length (evictOldest s) = card (set (evictOldest s))"
    by (simp add: distinct_card)
  also have "\<dots> = card (set (drop ?n (sortedTraces s)))"
    by (simp add: evictOldest_set(1) [OF d over])
  also have "\<dots> = length (drop ?n (sortedTraces s))"
    using ds by (simp add: distinct_card)
  also have "\<dots> = MAX_TRACES"
    using over by (simp add: sortedTraces_props)
  finally show ?thesis .
qed

lemma sorted_take_drop:
  assumes "sorted (map f xs)" "x \<in> set (take n xs)" "y \<in> set (drop n xs)"
  shows "f x \<le> f y"
proof -
  have "sorted (map f (take n xs) @ map f (drop n xs))"
    using assms(1) by (simp flip: map_append)
  then show ?thesis using assms(2,3) by (auto simp: sorted_append)
qed

lemma distinct_removeStale: "distinct (map fst s) \<Longrightarrow> distinct (map fst (removeStale now s))"
  by (simp add: removeStale_filter distinct_filter_keys)

subsection \<open>Writing to the map\<close>

lemma map_of_traces_set:
  "map_of (traces_set s k v) k' = (if k' = k then Some v else map_of s k')"
  by (induction s) auto

lemma keys_traces_set: "fst ` set (traces_set s k v) = insert k (fst ` set s)"
proof (induction s)
  case Nil
  show ?case by simp
next
  case (Cons p ps)
  then show ?case by (cases p) (simp add: insert_commute)
qed

lemma distinct_traces_set:
  "distinct (map fst s) \<Longrightarrow> distinct (map fst (traces_set s k v))"
proof (induction s)
  case Nil
  show ?case by simp
next
  case (Cons p ps)
  then have d: "distinct (map fst (traces_set ps k v))" and notin: "fst p \<notin> fst ` set ps"
    by simp_all
  show ?case
  proof (cases "fst p = k")
    case True
    with Cons.prems show ?thesis by (cases p) simp
  next
    case False
    with notin have "fst p \<notin> fst ` set (traces_set ps k v)"
      by (simp only: keys_traces_set) simp
    with d False show ?thesis by (cases p) simp
  qed
qed

lemma length_traces_set_le: "length (traces_set s k v) \<le> Suc (length s)"
  by (induction s) auto

lemma length_traces_set_present:
  "map_of s k = Some v0 \<Longrightarrow> length (traces_set s k v) = length s"
  by (induction s) (auto split: if_splits)

lemma traces_set_fresh: "k \<notin> fst ` set s \<Longrightarrow> traces_set s k v = s @ [(k, v)]"
  by (induction s) auto

lemma map_of_Some_key: "map_of s k = Some v \<Longrightarrow> k \<in> fst ` set s"
  by (metis map_of_eq_None_iff option.distinct(1))

subsection \<open>Every operation keeps the keys distinct and the size bounded\<close>

lemma length_performCleanup_le: "length (performCleanup now s) \<le> length s"
proof -
  obtain K where "performCleanup now s = filter (\<lambda>p. fst p \<notin> K) s"
    using performCleanup_filter by blast
  then show ?thesis by simp
qed

lemma distinct_performCleanup:
  "distinct (map fst s) \<Longrightarrow> distinct (map fst (performCleanup now s))"
proof -
  assume d: "distinct (map fst s)"
  obtain K where "performCleanup now s = filter (\<lambda>p. fst p \<notin> K) s"
    using performCleanup_filter by blast
  with d show ?thesis by (simp add: distinct_filter_keys)
qed

lemma length_performCleanup_cap:
  assumes "distinct (map fst s)"
  shows "length (performCleanup now s) \<le> MAX_TRACES"
proof (cases "length (removeStale now s) > MAX_TRACES")
  case True
  then show ?thesis
    by (simp add: performCleanup_def evictOldest_length [OF distinct_removeStale [OF assms]])
next
  case False
  then show ?thesis by (simp add: performCleanup_def evictOldest_def)
qed

lemma createTrace_wellFormed:
  assumes "wellFormed s"
  shows "wellFormed (snd (createTrace now traceId metadata s))"
proof (cases "map_of s traceId")
  case (Some existing)
  with assms show ?thesis by (simp add: createTrace_def)
next
  case None
  let ?s1 = "if 10 * length s \<ge> 9 * MAX_TRACES then performCleanup now s else s"
  from assms have d: "distinct (map fst s)" by (simp add: wellFormed_def)
  have d1: "distinct (map fst ?s1)" using d by (simp add: distinct_performCleanup)
  have l1: "length ?s1 \<le> MAX_TRACES"
    using length_performCleanup_cap [OF d, of now] by (auto simp: MAX_TRACES_def)
  have "length (traces_set ?s1 traceId v) \<le> MAX_TRACES + 1" for v
    using l1 length_traces_set_le [of ?s1 traceId v] by simp
  with d1 None show ?thesis
    by (simp add: createTrace_def Let_def wellFormed_def distinct_traces_set)
qed

lemma traces_set_present_wellFormed:
  "wellFormed s \<Longrightarrow> map_of s k = Some v \<Longrightarrow> wellFormed (traces_set s k v')"
  by (simp add: wellFormed_def distinct_traces_set length_traces_set_present)

lemma step_wellFormed: "wellFormed s \<Longrightarrow> wellFormed (step x s)"
proof (cases x)
  case (CreateTrace now traceId metadata)
  assume "wellFormed s"
  with CreateTrace show ?thesis by (simp add: createTrace_wellFormed)
next
  case (AddSpan uuid now traceId spec)
  assume "wellFormed s"
  with AddSpan show ?thesis
    by (auto simp: addSpan_def Let_def traces_set_present_wellFormed split: option.splits)
next
  case (CompleteSpan now traceId spanId metadata err)
  assume "wellFormed s"
  with CompleteSpan show ?thesis
    by (auto simp: completeSpan_def traces_set_present_wellFormed split: option.splits)
next
  case (CompleteTrace now traceId)
  assume "wellFormed s"
  with CompleteTrace show ?thesis
    by (auto simp: completeTrace_def Let_def traces_set_present_wellFormed split: option.splits)
next
  case (GraceDelete traceId)
  assume w: "wellFormed s"
  from w have "length s \<le> MAX_TRACES + 1" by (simp add: wellFormed_def)
  then have "length (filter (\<lambda>p. fst p \<noteq> traceId) s) \<le> MAX_TRACES + 1"
    by (rule le_trans [OF length_filter_le])
  with w GraceDelete show ?thesis
    by (simp add: wellFormed_def traces_delete_def distinct_filter_keys)
next
  case (PerformCleanup now)
  assume w: "wellFormed s"
  with PerformCleanup show ?thesis
    using length_performCleanup_le [of now s]
    by (simp add: wellFormed_def distinct_performCleanup)
next
  case Destroy
  then show ?thesis by (simp add: wellFormed_def destroy_def)
qed

lemma run_wellFormed: "wellFormed s \<Longrightarrow> wellFormed (run ops s)"
  unfolding run_def by (induction ops arbitrary: s) (simp_all add: step_wellFormed)

lemma run_snoc: "run (xs @ [x]) s = step x (run xs s)"
  by (simp add: run_def)

subsection \<open>A store of young traces\<close>

lemma key_inj: "key i = key j \<Longrightarrow> i = j"
  by (metis key_def length_replicate)

lemma keys_fullStore: "map fst (fullStore n) = map key [0..<n]"
  by (simp add: fullStore_def comp_def)

lemma distinct_fullStore: "distinct (map fst (fullStore n))"
  by (auto simp: keys_fullStore distinct_map intro: inj_onI dest: key_inj)

lemma length_fullStore: "length (fullStore n) = n"
  by (simp add: fullStore_def)

lemma fullStore_Suc: "fullStore (Suc n) = fullStore n @ [(key n, freshTrace (key n) (int n))]"
  by (simp add: fullStore_def)

lemma key_not_in_fullStore: "key n \<notin> fst ` set (fullStore n)"
proof
  assume "key n \<in> fst ` set (fullStore n)"
  then have "key n \<in> set (map fst (fullStore n))" by simp
  then obtain i where "i < n" "key n = key i" by (auto simp: keys_fullStore)
  then show False using key_inj by blast
qed

lemma removeStale_fullStore:
  assumes "now \<le> TRACE_TTL_MS"
  shows "removeStale now (fullStore n) = fullStore n"
proof -
  have "tracesToDelete now (fullStore n) = []"
    using assms by (auto simp: tracesToDelete_def fullStore_def age_def freshTrace_def filter_empty_conv)
  then show ?thesis by (simp add: removeStale_def)
qed

lemma performCleanup_fullStore:
  assumes "now \<le> TRACE_TTL_MS" "n \<le> MAX_TRACES"
  shows "performCleanup now (fullStore n) = fullStore n"
  using assms by (simp add: performCleanup_def removeStale_fullStore evictOldest_def length_fullStore)

lemma createTrace_fullStore:
  assumes "n \<le> MAX_TRACES"
  shows "snd (createTrace (int n) (key n) noMetadata (fullStore n)) = fullStore (Suc n)"
proof -
  have none: "map_of (fullStore n) (key n) = None"
    using key_not_in_fullStore [of n] by (simp add: map_of_eq_None_iff)
  have "int n \<le> TRACE_TTL_MS" using assms by (simp add: MAX_TRACES_def TRACE_TTL_MS_def)
  then have clean: "performCleanup (int n) (fullStore n) = fullStore n"
    using assms by (rule performCleanup_fullStore)
  show ?thesis
    by (simp add: createTrace_def none clean Let_def traces_set_fresh [OF key_not_in_fullStore]
        fullStore_Suc freshTrace_def)
qed

lemma run_createAll: "n \<le> MAX_TRACES + 1 \<Longrightarrow> run (createAll n) [] = fullStore n"
proof (induction n)
  case 0
  show ?case by (simp add: createAll_def fullStore_def run_def)
next
  case (Suc n)
  then have n: "n \<le> MAX_TRACES" and ih: "run (createAll n) [] = fullStore n" by simp_all
  have "createAll (Suc n) = createAll n @ [CreateTrace (int n) (key n) noMetadata]"
    by (simp add: createAll_def)
  then show ?case
    by (simp add: run_snoc ih createTrace_fullStore [OF n])
qed

subsection \<open>The claims on cleanup\<close>

text \<open>
  Claim C4, as the code has it. The first pass deletes a trace when
  \<open>age > TRACE_TTL_MS\<close>, a strict comparison: after \<open>performCleanup\<close> every
  trace that was in the store with an age strictly greater than the TTL of 300000 ms is
  absent, completed or not (no field but the start time is read).
\<close>

theorem stale_traces_absent_after_cleanup:
  "(tid, tr) \<in> set s \<Longrightarrow> age now tr > TRACE_TTL_MS \<Longrightarrow>
   map_of (performCleanup now s) tid = None \<and> tid \<notin> fst ` set (performCleanup now s)"
proof -
  assume a: "(tid, tr) \<in> set s" "age now tr > TRACE_TTL_MS"
  obtain K where K: "performCleanup now s = filter (\<lambda>p. fst p \<notin> K) s" "set (tracesToDelete now s) \<subseteq> K"
    using performCleanup_filter by blast
  from a K(2) have "tid \<in> K" using stale_key by blast
  then have "map_of (performCleanup now s) tid = None"
    by (simp add: K(1) map_of_filter_keys)
  then show ?thesis by (simp add: map_of_eq_None_iff)
qed

theorem stale_traces_absent_after_cleanup_witness:
  "(''t1'', freshTrace ''t1'' 0) \<in> set [(''t1'', freshTrace ''t1'' 0)] \<and>
   age 300001 (freshTrace ''t1'' 0) > TRACE_TTL_MS \<and>
   map_of (performCleanup 300001 [(''t1'', freshTrace ''t1'' 0)]) ''t1'' = None"
proof -
  have h1: "(''t1'', freshTrace ''t1'' 0) \<in> set [(''t1'', freshTrace ''t1'' 0)]" by simp
  have h2: "age 300001 (freshTrace ''t1'' 0) > TRACE_TTL_MS"
    by (simp add: age_def TRACE_TTL_MS_def freshTrace_def)
  from stale_traces_absent_after_cleanup [OF h1 h2] h1 h2 show ?thesis by simp
qed

text \<open>
  The claim as stated fails at the boundary: a trace whose age is exactly the TTL
  (started at 0, cleanup at 300000) is at least five minutes old and stays in the
  store.
\<close>

theorem trace_at_exact_ttl_survives_cleanup:
  "age 300000 (freshTrace ''t1'' 0) \<ge> TRACE_TTL_MS \<and>
   map_of (performCleanup 300000 [(''t1'', freshTrace ''t1'' 0)]) ''t1'' = Some (freshTrace ''t1'' 0)"
  by (simp add: performCleanup_def removeStale_def tracesToDelete_def age_def TRACE_TTL_MS_def
      evictOldest_def MAX_TRACES_def freshTrace_def)

text \<open>
  Claim C5. Let the keys of the store be distinct, as the keys of a \<open>Map\<close> are,
  and let more than \<open>MAX_TRACES\<close> traces be left after the TTL pass. Then
  \<open>performCleanup\<close> leaves exactly \<open>MAX_TRACES = 10000\<close> traces, so it removes
  exactly the excess; every trace it leaves was there after the TTL pass; and every
  trace it removes started no later than every trace it leaves: no trace younger than
  a surviving one is evicted.
\<close>

theorem cleanup_evicts_oldest_excess:
  assumes d: "distinct (map fst s)" and over: "length (removeStale now s) > MAX_TRACES"
  shows "length (performCleanup now s) = MAX_TRACES \<and>
         length (removeStale now s) - length (performCleanup now s) = length (removeStale now s) - MAX_TRACES \<and>
         set (performCleanup now s) \<subseteq> set (removeStale now s) \<and>
         (\<forall>r \<in> set (removeStale now s) - set (performCleanup now s).
            \<forall>t \<in> set (performCleanup now s). trace_startTime (snd r) \<le> trace_startTime (snd t))"
proof -
  let ?s = "removeStale now s"
  have d': "distinct (map fst ?s)" using d by (rule distinct_removeStale)
  have len: "length (performCleanup now s) = MAX_TRACES"
    by (simp add: performCleanup_def evictOldest_length [OF d' over])
  have sub: "set (performCleanup now s) \<subseteq> set ?s"
    by (auto simp: performCleanup_def evictOldest_over [OF d' over])
  have surv: "set (performCleanup now s) = set (drop (length ?s - MAX_TRACES) (sortedTraces ?s))"
    by (simp only: performCleanup_def evictOldest_set(1) [OF d' over])
  have gone: "set ?s - set (performCleanup now s) = set (take (length ?s - MAX_TRACES) (sortedTraces ?s))"
    by (simp only: performCleanup_def evictOldest_set(2) [OF d' over])
  have ord: "\<forall>r \<in> set ?s - set (performCleanup now s).
            \<forall>t \<in> set (performCleanup now s). trace_startTime (snd r) \<le> trace_startTime (snd t)"
  proof (intro ballI)
    fix r t
    assume r: "r \<in> set ?s - set (performCleanup now s)" and t: "t \<in> set (performCleanup now s)"
    from r have r': "r \<in> set (take (length ?s - MAX_TRACES) (sortedTraces ?s))"
      unfolding gone .
    from t have t': "t \<in> set (drop (length ?s - MAX_TRACES) (sortedTraces ?s))"
      unfolding surv .
    show "trace_startTime (snd r) \<le> trace_startTime (snd t)"
      by (rule sorted_take_drop [OF sortedTraces_props(4) r' t'])
  qed
  from len sub ord show ?thesis by simp
qed

theorem cleanup_evicts_oldest_excess_witness:
  "distinct (map fst (fullStore 10001)) \<and>
   length (removeStale 0 (fullStore 10001)) > MAX_TRACES \<and>
   length (performCleanup 0 (fullStore 10001)) = 10000 \<and>
   map_of (performCleanup 0 (fullStore 10001)) (key 0) = None"
proof -
  let ?s = "fullStore 10001"
  have d: "distinct (map fst ?s)" by (rule distinct_fullStore)
  have rs: "removeStale 0 ?s = ?s"
    by (rule removeStale_fullStore) (simp add: TRACE_TTL_MS_def)
  have over: "length (removeStale 0 ?s) > MAX_TRACES"
    by (simp add: rs length_fullStore MAX_TRACES_def)
  note t = cleanup_evicts_oldest_excess [OF d over]
  from t have len: "length (performCleanup 0 ?s) = MAX_TRACES" by simp
  from t have sub: "set (performCleanup 0 ?s) \<subseteq> set ?s" by (simp add: rs)
  from t have ord: "\<forall>r \<in> set ?s - set (performCleanup 0 ?s).
      \<forall>t \<in> set (performCleanup 0 ?s). trace_startTime (snd r) \<le> trace_startTime (snd t)"
    by (simp add: rs)
  have first: "(key 0, freshTrace (key 0) 0) \<in> set ?s"
    by (simp add: fullStore_def image_iff) (rule bexI [of _ 0], simp_all)
  have gone: "(key 0, freshTrace (key 0) 0) \<notin> set (performCleanup 0 ?s)"
  proof
    assume kept: "(key 0, freshTrace (key 0) 0) \<in> set (performCleanup 0 ?s)"
    have "card (set (performCleanup 0 ?s)) \<le> MAX_TRACES"
      using card_length [of "performCleanup 0 ?s"] len by simp
    moreover have "card (set ?s) = 10001"
      using distinct_card [OF distinct_fst [OF d]] by (simp add: length_fullStore)
    ultimately have "set ?s \<noteq> set (performCleanup 0 ?s)"
      by (auto simp: MAX_TRACES_def)
    with sub obtain r where r: "r \<in> set ?s" "r \<notin> set (performCleanup 0 ?s)" by blast
    then obtain i where i: "r = (key i, freshTrace (key i) (int i))"
      by (auto simp: fullStore_def)
    with r(2) kept have "i \<noteq> 0" by (cases "i = 0") auto
    moreover from ord r kept have "trace_startTime (snd r) \<le> trace_startTime (snd (key 0, freshTrace (key 0) 0))"
      by blast
    ultimately show False by (simp add: i freshTrace_def)
  qed
  have "map_of (performCleanup 0 ?s) (key 0) = None"
  proof (rule ccontr)
    assume "map_of (performCleanup 0 ?s) (key 0) \<noteq> None"
    then obtain tr where m: "map_of (performCleanup 0 ?s) (key 0) = Some tr" by blast
    then have in1: "(key 0, tr) \<in> set (performCleanup 0 ?s)" by (rule map_of_SomeD)
    with sub have "(key 0, tr) \<in> set ?s" by blast
    with first d have "tr = freshTrace (key 0) 0"
      by (meson eq_key_imp_eq_value)
    with in1 gone show False by simp
  qed
  with d over len show ?thesis by (simp add: MAX_TRACES_def)
qed

text \<open>
  Claim C9. From the empty store, after any sequence of store operations the map
  holds at most 10001 traces, and so it does after one more \<open>createTrace\<close>; the
  bound is reached: creating 10001 traces with different identifiers within the TTL
  leaves 10001 traces, one more than \<open>MAX_TRACES\<close>, because the capacity pass
  runs before the new trace is inserted.
\<close>

theorem store_size_bounded:
  "length (run ops []) \<le> 10001 \<and>
   length (snd (createTrace now traceId metadata (run ops []))) \<le> 10001 \<and>
   length (run (createAll 10001) []) = 10001"
proof -
  have w0: "wellFormed []" by (simp add: wellFormed_def)
  have w: "wellFormed (run ops [])" by (rule run_wellFormed [OF w0])
  have a: "length (run ops []) \<le> 10001"
    using w by (simp add: wellFormed_def MAX_TRACES_def)
  have b: "length (snd (createTrace now traceId metadata (run ops []))) \<le> 10001"
    using createTrace_wellFormed [OF w, of now traceId metadata]
    by (simp add: wellFormed_def MAX_TRACES_def)
  have c: "length (run (createAll 10001) []) = 10001"
    by (simp add: run_createAll MAX_TRACES_def length_fullStore)
  from a b c show ?thesis by simp
qed

theorem store_size_bounded_witness:
  "length (run failedSpanOps []) \<le> 10001 \<and>
   length (snd (createTrace 5 ''t2'' noMetadata (run failedSpanOps []))) \<le> 10001 \<and>
   length (run (createAll 10001) []) = 10001"
  using store_size_bounded [of failedSpanOps 5 "''t2''" noMetadata]
  by simp

section \<open>The trace store: span status\<close>

lemma map_of_performCleanup:
  "map_of (performCleanup now s) k = Some tr \<Longrightarrow> map_of s k = Some tr"
proof -
  assume a: "map_of (performCleanup now s) k = Some tr"
  obtain K where "performCleanup now s = filter (\<lambda>p. fst p \<notin> K) s"
    using performCleanup_filter by blast
  with a show ?thesis by (simp add: map_of_filter_keys split: if_splits)
qed

lemma map_of_traces_delete:
  "map_of (traces_delete k' s) k = Some tr \<Longrightarrow> map_of s k = Some tr"
  using map_of_filter_keys [of "{k'}" s k]
  by (simp add: traces_delete_def split: if_splits)

lemma length_update_first: "length (update_first P f xs) = length xs"
  by (induction xs) auto

lemma nth_update_first:
  "i < length xs \<Longrightarrow> update_first P f xs ! i = xs ! i \<or> update_first P f xs ! i = f (xs ! i)"
proof (induction xs arbitrary: i)
  case Nil
  then show ?case by simp
next
  case (Cons x xs)
  then show ?case by (cases i) auto
qed

lemma terminal_iff: "terminal st = (st \<noteq> None \<and> st \<noteq> Some Started)"
  by (cases st) (auto simp: terminal_def intro: SpanStatus.exhaust)

lemma span_status_finishSpan: "span_status (finishSpan now md err sp) \<noteq> Started"
  by (simp add: finishSpan_def)

lemma statusAt_same:
  "map_of s' k = map_of s k \<Longrightarrow> statusAt s' k i = statusAt s k i"
  by (simp add: statusAt_def)

lemma createTrace_keeps:
  assumes "map_of s k = Some tr"
  shows "map_of (snd (createTrace now traceId md s)) k = None \<or>
         map_of (snd (createTrace now traceId md s)) k = Some tr"
proof (cases "map_of s traceId")
  case (Some existing)
  with assms show ?thesis by (simp add: createTrace_def)
next
  case None
  with assms have ne: "k \<noteq> traceId" by auto
  let ?s1 = "if 10 * length s \<ge> 9 * MAX_TRACES then performCleanup now s else s"
  have "map_of ?s1 k = None \<or> map_of ?s1 k = Some tr"
    using assms map_of_performCleanup [of now s k] by (cases "map_of (performCleanup now s) k") auto
  with None ne show ?thesis
    by (simp add: createTrace_def Let_def map_of_traces_set)
qed

lemma step_terminal:
  assumes t: "terminal (statusAt s k i)" and kept: "map_of (step x s) k \<noteq> None"
  shows "terminal (statusAt (step x s) k i)"
proof -
  from t obtain tr where tr: "map_of s k = Some tr" and i: "i < length (trace_spans tr)"
    and st: "span_status (trace_spans tr ! i) \<noteq> Started"
    by (auto simp: terminal_iff statusAt_def split: option.splits if_splits)
  have same: "map_of s' k = Some tr \<Longrightarrow> terminal (statusAt s' k i)" for s'
    using t tr by (simp add: statusAt_def)
  show ?thesis
  proof (cases x)
    case (CreateTrace now traceId metadata)
    with kept createTrace_keeps [OF tr, of now traceId metadata] show ?thesis
      by (auto intro: same)
  next
    case (AddSpan uuid now traceId spec)
    show ?thesis
    proof (cases "traceId = k")
      case True
      with AddSpan tr i st show ?thesis
        by (simp add: addSpan_def Let_def map_of_traces_set statusAt_def terminal_iff nth_append)
    next
      case False
      with AddSpan tr show ?thesis
        by (auto simp: addSpan_def Let_def map_of_traces_set split: option.splits intro!: same)
    qed
  next
    case (CompleteSpan now traceId spanId metadata err)
    show ?thesis
    proof (cases "traceId = k")
      case True
      have "span_status (update_first P (finishSpan now metadata err) (trace_spans tr) ! i) \<noteq> Started" for P
        using nth_update_first [OF i, of P "finishSpan now metadata err"] st
        by (auto simp: span_status_finishSpan)
      with True CompleteSpan tr i show ?thesis
        by (cases "find (\<lambda>sp. span_id sp = spanId) (trace_spans tr)")
           (auto simp: completeSpan_def map_of_traces_set statusAt_def terminal_iff length_update_first st)
    next
      case False
      with CompleteSpan tr show ?thesis
        by (auto simp: completeSpan_def map_of_traces_set split: option.splits intro!: same)
    qed
  next
    case (CompleteTrace now traceId)
    show ?thesis
    proof (cases "traceId = k")
      case True
      with CompleteTrace tr i st show ?thesis
        by (simp add: completeTrace_def Let_def map_of_traces_set statusAt_def terminal_iff)
    next
      case False
      with CompleteTrace tr show ?thesis
        by (auto simp: completeTrace_def Let_def map_of_traces_set split: option.splits intro!: same)
    qed
  next
    case (GraceDelete traceId)
    with kept tr map_of_filter_keys [of "{traceId}" s k] show ?thesis
      by (auto simp: traces_delete_def split: if_splits intro!: same)
  next
    case (PerformCleanup now)
    with kept obtain tr' where "map_of (performCleanup now s) k = Some tr'" by auto
    with map_of_performCleanup [of now s k tr'] tr PerformCleanup show ?thesis
      by (auto intro!: same)
  next
    case Destroy
    with kept show ?thesis by (simp add: destroy_def)
  qed
qed

lemma nth_update_first_other:
  "i < length xs \<Longrightarrow> \<not> P (xs ! i) \<Longrightarrow> update_first P f xs ! i = xs ! i"
proof (induction xs arbitrary: i)
  case Nil
  then show ?case by simp
next
  case (Cons x xs)
  then show ?case by (cases i) auto
qed

lemma update_first_none: "\<forall>x \<in> set xs. \<not> P x \<Longrightarrow> update_first P f xs = xs"
  by (induction xs) auto

lemma span_id_finishSpan: "span_id (finishSpan now md err sp) = span_id sp"
  by (simp add: finishSpan_def)

lemma span_id_update_first:
  "i < length xs \<Longrightarrow>
   span_id (update_first P (finishSpan now md err) xs ! i) = span_id (xs ! i)"
  using nth_update_first [of i xs P "finishSpan now md err"]
  by (auto simp: span_id_finishSpan)

text \<open>What one operation does to the spans of a trace that it keeps.\<close>

lemma step_spans:
  assumes tr: "map_of s k = Some tr" and tr': "map_of (step x s) k = Some tr'"
  shows "(\<exists>now spanId md err. x = CompleteSpan now k spanId md err \<and>
            trace_spans tr' =
              update_first (\<lambda>sp. span_id sp = spanId) (finishSpan now md err) (trace_spans tr))
         \<or> (\<not> completesSpan k (Some sid) x \<and> (\<exists>extra. trace_spans tr' = trace_spans tr @ extra))"
proof (cases x)
  case (CreateTrace now traceId metadata)
  with tr' createTrace_keeps [OF tr, of now traceId metadata] have "tr' = tr" by auto
  with CreateTrace show ?thesis by simp
next
  case (AddSpan uuid now traceId spec)
  with tr tr' show ?thesis
    by (cases "traceId = k")
       (auto simp: addSpan_def Let_def map_of_traces_set split: option.splits)
next
  case (CompleteSpan now traceId spanId metadata err)
  show ?thesis
  proof (cases "traceId = k")
    case True
    show ?thesis
    proof (cases "find (\<lambda>sp. span_id sp = spanId) (trace_spans tr)")
      case None
      then have "\<forall>sp \<in> set (trace_spans tr). span_id sp \<noteq> spanId"
        by (simp add: find_None_iff)
      then have same: "update_first (\<lambda>sp. span_id sp = spanId) f (trace_spans tr) = trace_spans tr" for f
        by (rule update_first_none)
      from None True CompleteSpan tr tr' have "tr' = tr"
        by (simp add: completeSpan_def)
      with same True CompleteSpan show ?thesis by simp
    next
      case (Some sp)
      with True CompleteSpan tr tr' show ?thesis
        by (auto simp: completeSpan_def map_of_traces_set)
    qed
  next
    case False
    with CompleteSpan tr tr' have "tr' = tr"
      by (auto simp: completeSpan_def map_of_traces_set split: option.splits)
    with False CompleteSpan show ?thesis by simp
  qed
next
  case (CompleteTrace now traceId)
  with tr tr' have "trace_spans tr' = trace_spans tr"
    by (cases "traceId = k")
       (auto simp: completeTrace_def Let_def map_of_traces_set split: option.splits)
  with CompleteTrace show ?thesis by simp
next
  case (GraceDelete traceId)
  with tr tr' map_of_traces_delete [of traceId s k tr'] have "tr' = tr" by simp
  with GraceDelete show ?thesis by simp
next
  case (PerformCleanup now)
  with tr tr' map_of_performCleanup [of now s k tr'] have "tr' = tr" by simp
  with PerformCleanup show ?thesis by simp
next
  case Destroy
  with tr' show ?thesis by (simp add: destroy_def)
qed


lemma statusAt_SomeD:
  assumes "statusAt s k i = Some st"
  obtains tr where "map_of s k = Some tr" "i < length (trace_spans tr)"
    "span_status (trace_spans tr ! i) = st" "spanIdAt s k i = Some (span_id (trace_spans tr ! i))"
  using assms by (auto simp: statusAt_def spanIdAt_def split: option.splits if_splits)

lemma step_status:
  assumes st: "statusAt s k i = Some st" and kept: "map_of (step x s) k \<noteq> None"
  shows "spanIdAt (step x s) k i = spanIdAt s k i"
    and "\<not> completesSpan k (spanIdAt s k i) x \<Longrightarrow> statusAt (step x s) k i = Some st"
    and "statusAt (step x s) k i = Some st \<or> terminal (statusAt (step x s) k i)"
proof -
  from st obtain tr where tr: "map_of s k = Some tr" and i: "i < length (trace_spans tr)"
    and sti: "span_status (trace_spans tr ! i) = st"
    and sid: "spanIdAt s k i = Some (span_id (trace_spans tr ! i))"
    by (rule statusAt_SomeD)
  from kept obtain tr' where tr': "map_of (step x s) k = Some tr'" by blast
  let ?sid = "span_id (trace_spans tr ! i)"
  from step_spans [OF tr tr', of ?sid]
  consider (complete) now spanId md err where "x = CompleteSpan now k spanId md err"
      "trace_spans tr' = update_first (\<lambda>sp. span_id sp = spanId) (finishSpan now md err) (trace_spans tr)"
    | (other) extra where "\<not> completesSpan k (Some ?sid) x" "trace_spans tr' = trace_spans tr @ extra"
    by blast
  then have all: "spanIdAt (step x s) k i = spanIdAt s k i \<and>
      (\<not> completesSpan k (spanIdAt s k i) x \<longrightarrow> statusAt (step x s) k i = Some st) \<and>
      (statusAt (step x s) k i = Some st \<or> terminal (statusAt (step x s) k i))"
  proof cases
    case complete
    let ?xs = "update_first (\<lambda>sp. span_id sp = spanId) (finishSpan now md err) (trace_spans tr)"
    have len: "i < length ?xs" using i by (simp add: length_update_first)
    have idp: "span_id (?xs ! i) = ?sid" using i by (rule span_id_update_first)
    have "spanIdAt (step x s) k i = Some ?sid"
      using len idp by (simp add: spanIdAt_def tr' complete(2))
    then have a: "spanIdAt (step x s) k i = spanIdAt s k i"
      by (simp only: sid)
    have b: "statusAt (step x s) k i = Some st" if "\<not> completesSpan k (spanIdAt s k i) x"
    proof -
      from that have "?sid \<noteq> spanId" by (auto simp: complete(1) sid)
      then have "?xs ! i = trace_spans tr ! i"
        using i by (simp add: nth_update_first_other)
      with len sti show ?thesis by (simp add: statusAt_def tr' complete(2))
    qed
    have c: "statusAt (step x s) k i = Some st \<or> terminal (statusAt (step x s) k i)"
    proof -
      from nth_update_first [OF i, of "\<lambda>sp. span_id sp = spanId" "finishSpan now md err"]
      have "span_status (?xs ! i) = st \<or> span_status (?xs ! i) \<noteq> Started"
        using sti by (auto simp: span_status_finishSpan)
      with len show ?thesis
        by (auto simp: statusAt_def tr' complete(2) terminal_iff)
    qed
    from a b c show ?thesis by blast
  next
    case other
    have len: "i < length (trace_spans tr @ extra)" using i by simp
    have nth: "(trace_spans tr @ extra) ! i = trace_spans tr ! i" using i by (simp add: nth_append)
    have "spanIdAt (step x s) k i = Some ?sid"
      using len nth by (simp add: spanIdAt_def tr' other(2))
    then have a: "spanIdAt (step x s) k i = spanIdAt s k i"
      by (simp only: sid)
    have b: "statusAt (step x s) k i = Some st"
      using len nth sti by (simp add: statusAt_def tr' other(2))
    from a b show ?thesis by simp
  qed
  from all show "spanIdAt (step x s) k i = spanIdAt s k i" by blast
  from all show "\<not> completesSpan k (spanIdAt s k i) x \<Longrightarrow> statusAt (step x s) k i = Some st" by blast
  from all show "statusAt (step x s) k i = Some st \<or> terminal (statusAt (step x s) k i)" by blast
qed

lemma run_Cons: "run (x # xs) s = run xs (step x s)"
  by (simp add: run_def)

lemma run_terminal:
  "terminal (statusAt s k i) \<Longrightarrow> keptThrough k ops s \<Longrightarrow> terminal (statusAt (run ops s) k i)"
proof (induction ops arbitrary: s)
  case Nil
  then show ?case by (simp add: run_def)
next
  case (Cons x xs)
  from Cons.prems have kept: "map_of (step x s) k \<noteq> None" and rest: "keptThrough k xs (step x s)"
    by simp_all
  have "terminal (statusAt (step x s) k i)"
    by (rule step_terminal [OF Cons.prems(1) kept])
  from Cons.IH [OF this rest] show ?case by (simp add: run_Cons)
qed

lemma run_status_frame:
  "statusAt s k i = Some st \<Longrightarrow> keptThrough k ops s \<Longrightarrow>
   \<not> list_ex (completesSpan k (spanIdAt s k i)) ops \<Longrightarrow> statusAt (run ops s) k i = Some st"
proof (induction ops arbitrary: s)
  case Nil
  then show ?case by (simp add: run_def)
next
  case (Cons x xs)
  from Cons.prems have kept: "map_of (step x s) k \<noteq> None" and rest: "keptThrough k xs (step x s)"
    and nox: "\<not> completesSpan k (spanIdAt s k i) x"
    and noxs: "\<not> list_ex (completesSpan k (spanIdAt s k i)) xs"
    by simp_all
  have st': "statusAt (step x s) k i = Some st"
    by (rule step_status(2) [OF Cons.prems(1) kept nox])
  have "spanIdAt (step x s) k i = spanIdAt s k i"
    by (rule step_status(1) [OF Cons.prems(1) kept])
  with noxs have "\<not> list_ex (completesSpan k (spanIdAt (step x s) k i)) xs" by simp
  from Cons.IH [OF st' rest this] show ?case by (simp add: run_Cons)
qed

lemma run_status_change:
  "statusAt s k i = Some st \<Longrightarrow> keptThrough k ops s \<Longrightarrow>
   statusAt (run ops s) k i = Some st \<or> terminal (statusAt (run ops s) k i)"
proof (induction ops arbitrary: s)
  case Nil
  then show ?case by (simp add: run_def)
next
  case (Cons x xs)
  from Cons.prems have kept: "map_of (step x s) k \<noteq> None" and rest: "keptThrough k xs (step x s)"
    by simp_all
  from step_status(3) [OF Cons.prems(1) kept]
  show ?case
  proof
    assume "statusAt (step x s) k i = Some st"
    from Cons.IH [OF this rest] show ?thesis by (simp add: run_Cons)
  next
    assume "terminal (statusAt (step x s) k i)"
    from run_terminal [OF this rest] show ?thesis by (simp add: run_Cons)
  qed
qed


text \<open>
  Claim C7, as the code has it. Take the span at a position of a trace and any
  sequence of store operations through which the trace stays in the map. The status
  of the span is changed by nothing but a \<open>completeSpan\<close> on its trace with its own
  identifier: a sequence without such an operation leaves the status as it was. When
  the status changes, it changes to \<open>completed\<close> or \<open>error\<close>, and a span that is
  \<open>completed\<close> or \<open>error\<close> is never \<open>started\<close> again. \<open>completeSpan\<close> does not
  look at the current status, so a later completion of the same span may replace one
  terminal status by the other.
\<close>

theorem span_status_changes_only_by_own_completion:
  "statusAt s k i = Some st \<Longrightarrow> keptThrough k ops s \<Longrightarrow>
   (statusAt (run ops s) k i = Some st \<or> terminal (statusAt (run ops s) k i)) \<and>
   (st \<noteq> Started \<longrightarrow> terminal (statusAt (run ops s) k i)) \<and>
   (\<not> list_ex (completesSpan k (spanIdAt s k i)) ops \<longrightarrow> statusAt (run ops s) k i = Some st)"
proof -
  assume st: "statusAt s k i = Some st" and kept: "keptThrough k ops s"
  have a: "statusAt (run ops s) k i = Some st \<or> terminal (statusAt (run ops s) k i)"
    by (rule run_status_change [OF st kept])
  have b: "terminal (statusAt (run ops s) k i)" if "st \<noteq> Started"
  proof -
    from that st have "terminal (statusAt s k i)" by (simp add: terminal_iff)
    then show ?thesis using kept by (rule run_terminal)
  qed
  have c: "statusAt (run ops s) k i = Some st" if "\<not> list_ex (completesSpan k (spanIdAt s k i)) ops"
    by (rule run_status_frame [OF st kept that])
  from a b c show ?thesis by blast
qed


lemma run_failedSpanOps:
  "run failedSpanOps [] =
     [(''t1'', (freshTrace ''t1'' 0)\<lparr>trace_spans :=
        [\<lparr>span_id = ''sp1'', span_name = ''db.query'', span_startTime = 1, span_endTime = Some 2,
          span_duration = Some 1, span_status = Errored, span_metadata = None,
          span_error = Some ''boom'', span_tags = None\<rparr>]\<rparr>)]"
  by (simp add: run_def failedSpanOps_def createTrace_def addSpan_def completeSpan_def finishSpan_def
      sampleSpec_def freshTrace_def MAX_TRACES_def Let_def)

theorem span_status_changes_only_by_own_completion_witness:
  "statusAt (run failedSpanOps []) ''t1'' 0 = Some Errored \<and>
   keptThrough ''t1'' [AddSpan ''sp2'' 4 ''t1'' sampleSpec, CompleteSpan 5 ''t1'' ''sp2'' None None,
       CompleteTrace 6 ''t1''] (run failedSpanOps []) \<and>
   \<not> list_ex (completesSpan ''t1'' (spanIdAt (run failedSpanOps []) ''t1'' 0))
       [AddSpan ''sp2'' 4 ''t1'' sampleSpec, CompleteSpan 5 ''t1'' ''sp2'' None None,
        CompleteTrace 6 ''t1''] \<and>
   statusAt (run [AddSpan ''sp2'' 4 ''t1'' sampleSpec, CompleteSpan 5 ''t1'' ''sp2'' None None,
       CompleteTrace 6 ''t1''] (run failedSpanOps [])) ''t1'' 0 = Some Errored \<and>
   terminal (statusAt (run [AddSpan ''sp2'' 4 ''t1'' sampleSpec, CompleteSpan 5 ''t1'' ''sp2'' None None,
       CompleteTrace 6 ''t1''] (run failedSpanOps [])) ''t1'' 0)"
proof -
  let ?ops = "[AddSpan ''sp2'' 4 ''t1'' sampleSpec, CompleteSpan 5 ''t1'' ''sp2'' None None,
       CompleteTrace 6 ''t1'']"
  have h1: "statusAt (run failedSpanOps []) ''t1'' 0 = Some Errored"
    by (simp add: run_failedSpanOps statusAt_def)
  have h2: "keptThrough ''t1'' ?ops (run failedSpanOps [])"
    by (simp add: run_failedSpanOps completeSpan_def addSpan_def completeTrace_def finishSpan_def
        freshTrace_def sampleSpec_def Let_def)
  have h3: "\<not> list_ex (completesSpan ''t1'' (spanIdAt (run failedSpanOps []) ''t1'' 0)) ?ops"
    by (simp add: run_failedSpanOps spanIdAt_def)
  note t = span_status_changes_only_by_own_completion [OF h1 h2]
  from t h3 have same: "statusAt (run ?ops (run failedSpanOps [])) ''t1'' 0 = Some Errored"
    by blast
  from t have fin: "terminal (statusAt (run ?ops (run failedSpanOps [])) ''t1'' 0)"
    by blast
  from h1 h2 h3 same fin show ?thesis by blast
qed

text \<open>
  The claim as stated fails: a span completed with an error has status \<open>error\<close>,
  and a second \<open>completeSpan\<close> on it without an error changes the status to
  \<open>completed\<close>.
\<close>

theorem terminal_status_overwritten:
  "statusAt (run failedSpanOps []) ''t1'' 0 = Some Errored \<and>
   statusAt (step (CompleteSpan 3 ''t1'' ''sp1'' None None) (run failedSpanOps [])) ''t1'' 0 = Some Completed"
  by (simp add: run_failedSpanOps statusAt_def completeSpan_def finishSpan_def freshTrace_def)

section \<open>The request-context helpers\<close>

lemma completeRequestSpan_never_raises: "fst (completeRequestSpan now c spanId metadata err s) = Inr ()"
  by (simp add: completeRequestSpan_def Let_def)

lemma addRequestSpan_unresolved:
  "\<not> truthy_str (getTraceId c) \<Longrightarrow> addRequestSpan uuid now c name metadata tags s = (Inr None, s)"
  by (simp add: addRequestSpan_def)

lemma completeRequestSpan_unresolved:
  "\<not> truthy_str (getTraceId c) \<Longrightarrow> completeRequestSpan now c spanId metadata err s = (Inr (), s)"
  by (simp add: completeRequestSpan_def)

lemma addRequestSpan_raises_iff:
  "(\<exists>e. fst (addRequestSpan uuid now c name metadata tags s) = Inl e) =
   (truthy_str (getTraceId c) \<and> map_of s (the (getTraceId c)) = None)"
  by (auto simp: addRequestSpan_def startSpan_def addSpan_def Let_def split: option.splits)

text \<open>
  Claim C3 fails on the code. A trace \<open>t1\<close> is created and, five minutes later,
  removed by the cleanup; a request whose context still resolves to \<open>t1\<close> (here by
  the \<open>X-Trace-ID\<close> header) then starts a span: \<open>addRequestSpan\<close> passes the
  identifier to \<open>startSpan\<close>, \<open>addSpan\<close> finds no trace and throws, and the
  helper lets the error through.
\<close>

theorem addRequestSpan_raises_on_unknown_trace:
  "run [CreateTrace 0 ''t1'' noMetadata, PerformCleanup 300001] [] = [] \<and>
   getTraceId headerCtx = Some ''t1'' \<and>
   addRequestSpan ''sp1'' 300002 headerCtx ''trpc_auth_validation'' None None
       (run [CreateTrace 0 ''t1'' noMetadata, PerformCleanup 300001] [])
     = (Inl (TraceNotFound ''t1''), [])"
proof -
  have r: "run [CreateTrace 0 ''t1'' noMetadata, PerformCleanup 300001] [] = []"
    by (simp add: run_def createTrace_def MAX_TRACES_def Let_def performCleanup_def removeStale_def
        tracesToDelete_def age_def TRACE_TTL_MS_def traces_delete_def evictOldest_def)
  have g: "getTraceId headerCtx = Some ''t1''"
    by (simp add: getTraceId_def headerCtx_def or_str_def)
  show ?thesis
    by (simp add: r g addRequestSpan_def startSpan_def addSpan_def)
qed


section \<open>The user-agent classification\<close>

lemma keys_obj_set: "fst ` set (obj_set ob k v) = insert k (fst ` set ob)"
proof (induction ob)
  case Nil
  show ?case by simp
next
  case (Cons p ps)
  then show ?case by (cases p) (simp add: insert_commute)
qed

lemma keys_fold_obj_set:
  "fst ` set (fold (\<lambda>(k, v) ob. obj_set ob k v) kvs acc) = fst ` set kvs \<union> fst ` set acc"
  by (induction kvs arbitrary: acc) (simp_all add: keys_obj_set split_beta)

lemma keys_obj_literal: "fst ` set (obj_literal kvs) = fst ` set kvs"
  by (simp add: obj_literal_def keys_fold_obj_set)

lemma map_of_absent: "k \<notin> fst ` set ob \<Longrightarrow> map_of ob k = None"
  by (simp add: map_of_eq_None_iff)

lemma parseUserAgent_absent: "\<not> truthy_str ua \<Longrightarrow> parseUserAgent ua = []"
  by (simp add: parseUserAgent_def)

lemma additionalProperties_keys:
  "\<not> truthy_str (md_userAgent (log_metadata lg)) \<Longrightarrow>
   fst ` set (additionalProperties sid uid lg) \<subseteq>
     {''call_id'', ''procedure'', ''duration'', ''performance_category'', ''trpc_method'',
      ''session_id'', ''user_id'', ''http_method'', ''http_url'', ''client_ip'', ''referer'',
      ''origin'', ''accept_language'', ''accept_encoding'', ''request_id'', ''has_error'',
      ''error_message'', ''error_type'', ''request_payload'', ''response_payload'', ''timing'',
      ''trace''}"
  by (auto simp: additionalProperties_def keys_obj_literal parseUserAgent_absent Let_def)

lemma additionalProperties_no_device:
  assumes "\<not> truthy_str (md_userAgent (log_metadata lg))"
  shows "map_of (additionalProperties sid uid lg) ''browser'' = None"
    and "map_of (additionalProperties sid uid lg) ''browser_version'' = None"
    and "map_of (additionalProperties sid uid lg) ''operating_system'' = None"
    and "map_of (additionalProperties sid uid lg) ''os_version'' = None"
    and "map_of (additionalProperties sid uid lg) ''device_type'' = None"
    and "map_of (additionalProperties sid uid lg) ''user_agent'' = None"
  using additionalProperties_keys [OF assms, of sid uid]
  by (auto intro!: map_of_absent)

lemma ddtags_without_user_agent:
  "\<not> truthy_str (md_userAgent (log_metadata lg)) \<Longrightarrow>
   entryField (logEntry traceId spanId sid uid lg) ''ddtags'' =
     JStr (''session:'' @ sid @ '',user:'' @ uid @ '',procedure:'' @ log_procedure lg
           @ '',duration:'' @ show_int (log_duration lg) @ ''ms,has_error:''
           @ show_bool (truthy_str (log_error lg)) @ '',performance:''
           @ performanceCategory (log_duration lg) @ '',browser:undefined,device:undefined'')"
  by (simp add: entryField_def logEntry_def Let_def obj_literal_def obj_get_def
      parseUserAgent_absent show_prop_def)

lemma logSingleCall_submits:
  "\<not> isLoggingProcedure (log_procedure lg) \<Longrightarrow>
   fst (logSingleCall snk u1 u2 sid uid lg w) = Inr () \<and>
   submitted (snd (logSingleCall snk u1 u2 sid uid lg w)) =
     submitted w @ [JArr [logEntry (generateId u1) (generateId u2) sid uid lg]]"
  by (simp add: logSingleCall_def catch_and_log_def submitLog_def Let_def split: option.splits)

text \<open>
  Claim C8, as the code has it. For a call whose metadata has no user-agent string
  (absent, or empty), \<open>parseUserAgent\<close> returns the empty object at its first line.
  The entry is still built and handed to the sink, and the call does not fail; but the
  entry has none of the properties \<open>browser\<close>, \<open>browser_version\<close>,
  \<open>operating_system\<close>, \<open>os_version\<close>, \<open>device_type\<close> and \<open>user_agent\<close>, and its
  tag string ends in \<open>browser:undefined,device:undefined\<close>.
\<close>

theorem missing_user_agent_yields_no_device_fields:
  "\<not> truthy_str (md_userAgent (log_metadata lg)) \<Longrightarrow>
   \<not> isLoggingProcedure (log_procedure lg) \<Longrightarrow>
   parseUserAgent (md_userAgent (log_metadata lg)) = [] \<and>
   fst (logSingleCall snk u1 u2 sid uid lg w) = Inr () \<and>
   submitted (snd (logSingleCall snk u1 u2 sid uid lg w)) =
     submitted w @ [JArr [logEntry (generateId u1) (generateId u2) sid uid lg]] \<and>
   map_of (additionalProperties sid uid lg) ''browser'' = None \<and>
   map_of (additionalProperties sid uid lg) ''browser_version'' = None \<and>
   map_of (additionalProperties sid uid lg) ''operating_system'' = None \<and>
   map_of (additionalProperties sid uid lg) ''os_version'' = None \<and>
   map_of (additionalProperties sid uid lg) ''device_type'' = None \<and>
   map_of (additionalProperties sid uid lg) ''user_agent'' = None \<and>
   entryField (logEntry (generateId u1) (generateId u2) sid uid lg) ''ddtags'' =
     JStr (''session:'' @ sid @ '',user:'' @ uid @ '',procedure:'' @ log_procedure lg
           @ '',duration:'' @ show_int (log_duration lg) @ ''ms,has_error:''
           @ show_bool (truthy_str (log_error lg)) @ '',performance:''
           @ performanceCategory (log_duration lg) @ '',browser:undefined,device:undefined'')"
  by (simp add: parseUserAgent_absent additionalProperties_no_device ddtags_without_user_agent
      logSingleCall_submits)

lemma sampleLog_simps:
  "md_userAgent (log_metadata (stampLog ''id'' 5 (sampleCall ''mail.send'' None))) = None"
  "log_procedure (stampLog ''id'' 5 (sampleCall ''mail.send'' None)) = ''mail.send''"
  "log_duration (stampLog ''id'' 5 (sampleCall ''mail.send'' None)) = 42"
  "log_error (stampLog ''id'' 5 (sampleCall ''mail.send'' None)) = None"
  by (simp_all add: stampLog_simps sampleCall_def sampleMetadata_def)

lemma mail_send_not_logging: "\<not> isLoggingProcedure ''mail.send''"
  by (simp add: isLoggingProcedure_def loggingProcedures_def)

theorem missing_user_agent_yields_no_device_fields_witness:
  "\<not> truthy_str (md_userAgent (log_metadata (stampLog ''id'' 5 (sampleCall ''mail.send'' None)))) \<and>
   \<not> isLoggingProcedure (log_procedure (stampLog ''id'' 5 (sampleCall ''mail.send'' None))) \<and>
   fst (logSingleCall failingSink ''a-b'' ''c-d'' ''s1'' ''u1''
          (stampLog ''id'' 5 (sampleCall ''mail.send'' None)) emptyWorld) = Inr () \<and>
   map_of (additionalProperties ''s1'' ''u1'' (stampLog ''id'' 5 (sampleCall ''mail.send'' None)))
     ''device_type'' = None \<and>
   entryField (logEntry (generateId ''a-b'') (generateId ''c-d'') ''s1'' ''u1''
                 (stampLog ''id'' 5 (sampleCall ''mail.send'' None))) ''ddtags'' =
     JStr ''session:s1,user:u1,procedure:mail.send,duration:42ms,has_error:false,performance:fast,browser:undefined,device:undefined''"
proof -
  let ?lg = "stampLog ''id'' 5 (sampleCall ''mail.send'' None)"
  have h1: "\<not> truthy_str (md_userAgent (log_metadata ?lg))"
    by (simp add: sampleLog_simps)
  have h2: "\<not> isLoggingProcedure (log_procedure ?lg)"
    by (simp add: sampleLog_simps mail_send_not_logging)
  note t = missing_user_agent_yields_no_device_fields
             [OF h1 h2, of failingSink "''a-b''" "''c-d''" "''s1''" "''u1''" emptyWorld]
  note ok = t [THEN conjunct2, THEN conjunct1]
  note dev = t [THEN conjunct2, THEN conjunct2, THEN conjunct2, THEN conjunct2, THEN conjunct2,
                THEN conjunct2, THEN conjunct2, THEN conjunct1]
  note tags = t [THEN conjunct2, THEN conjunct2, THEN conjunct2, THEN conjunct2, THEN conjunct2,
                 THEN conjunct2, THEN conjunct2, THEN conjunct2, THEN conjunct2]
  have shown: "show_int 42 = ''42''"
    by (simp add: show_int_def digit_char_def)
  from tags have "entryField (logEntry (generateId ''a-b'') (generateId ''c-d'') ''s1'' ''u1'' ?lg)
        ''ddtags'' =
     JStr ''session:s1,user:u1,procedure:mail.send,duration:42ms,has_error:false,performance:fast,browser:undefined,device:undefined''"
    by (simp add: sampleLog_simps shown show_bool_def performanceCategory_def)
  with h1 h2 ok dev show ?thesis
    by simp
qed

text \<open>
  The claim as stated fails: for a call with no user agent the entry's \<open>browser\<close>
  property is missing (reading it gives \<open>undefined\<close>), not the string \<open>unknown\<close>,
  and so are the version properties, which are not empty strings.
\<close>

theorem missing_user_agent_not_unknown:
  "md_userAgent (log_metadata (stampLog ''id'' 5 (sampleCall ''mail.send'' None))) = None \<and>
   obj_get (additionalProperties ''s1'' ''u1'' (stampLog ''id'' 5 (sampleCall ''mail.send'' None)))
     ''browser'' = JUndefined \<and>
   obj_get (additionalProperties ''s1'' ''u1'' (stampLog ''id'' 5 (sampleCall ''mail.send'' None)))
     ''browser'' \<noteq> JStr ''unknown'' \<and>
   obj_get (additionalProperties ''s1'' ''u1'' (stampLog ''id'' 5 (sampleCall ''mail.send'' None)))
     ''browser_version'' \<noteq> JStr []"
proof -
  let ?lg = "stampLog ''id'' 5 (sampleCall ''mail.send'' None)"
  have h1: "\<not> truthy_str (md_userAgent (log_metadata ?lg))"
    by (simp add: sampleLog_simps)
  show ?thesis
    by (simp add: obj_get_def additionalProperties_no_device [OF h1] sampleLog_simps)
qed

end
